theory Spec2Isabelle
  imports Complex_Main "HOL-Library.Product_Lexorder" "HOL-Library.List_Lexorder"
begin

section \<open>Python values used by pgrtk\<close>

text \<open>
  The module \<^verbatim>\<open>pgrtk/__init__.py\<close> is plain Python. Its integers are unbounded
  (\<^typ>\<open>int\<close>; \<^typ>\<open>nat\<close> for the fields that arrive from Rust as unsigned
  numbers), its sequences are Python strings, and an exception aborts the whole call. An
  exception is the left summand of a result.
\<close>

datatype py_error = IndexError | UnboundLocalError | OverflowError

text \<open>
  \<^verbatim>\<open>xs[i]\<close>: a negative index counts from the end of the sequence, and an index outside
  \<open>-len(xs) .. len(xs) - 1\<close> raises \<^verbatim>\<open>IndexError\<close>.
\<close>

definition py_index :: "'a list \<Rightarrow> int \<Rightarrow> py_error + 'a" where
  "py_index xs i =
     (if 0 \<le> i \<and> i < int (length xs) then Inr (xs ! nat i)
      else if - int (length xs) \<le> i \<and> i < 0 then Inr (xs ! nat (int (length xs) + i))
      else Inl IndexError)"

text \<open>
  \<^verbatim>\<open>xs[i:j]\<close>: both bounds are clamped into \<open>0 .. len(xs)\<close>, a negative bound after
  adding the length; a slice never raises.
\<close>

definition py_slice :: "'a list \<Rightarrow> int \<Rightarrow> int \<Rightarrow> 'a list" where
  "py_slice xs i j =
     (let n = int (length xs);
          lo = (if i < 0 then max 0 (n + i) else min i n);
          hi = (if j < 0 then max 0 (n + j) else min j n)
      in take (nat (hi - lo)) (drop (nat lo) xs))"

section \<open>Variant calls from aligned segments: \<^verbatim>\<open>get_variant_calls\<close>\<close>

text \<open>
  An aligned segment carries two loci \<open>(id, bgn, len)\<close> of unsigned numbers and the
  segment kind \<open>t\<close> as a byte; the function compares it with \<^verbatim>\<open>ord('M')\<close>,
  \<^verbatim>\<open>ord('X')\<close>, \<^verbatim>\<open>ord('I')\<close> and \<^verbatim>\<open>ord('D')\<close> and stores \<^verbatim>\<open>chr(s.t)\<close>, so the
  byte is kept as a \<^typ>\<open>char\<close>.
\<close>

type_synonym seq_locus = "nat \<times> nat \<times> nat"

record aln_segment =
  ref_loc :: seq_locus
  tgt_loc :: seq_locus
  t :: char

definition loc_id :: "seq_locus \<Rightarrow> nat" where
  "loc_id l = fst l"

definition loc_bgn :: "seq_locus \<Rightarrow> int" where
  "loc_bgn l = int (fst (snd l))"

definition loc_len :: "seq_locus \<Rightarrow> int" where
  "loc_len l = int (snd (snd l))"

text \<open>
  The shift loops index the reference string \<^verbatim>\<open>rs0\<close> and the contig string
  \<^verbatim>\<open>cs0\<close>. Each loop returns, next to its result, the indices it asked for, in the order
  of the reads: Python evaluates \<^verbatim>\<open>a == b and c == d\<close> from left to right and skips the
  second comparison when the first is false.
\<close>

datatype seq_name = RS0 | CS0

type_synonym read_log = "(seq_name \<times> int) list"

text \<open>
  The loop of the \<^verbatim>\<open>'I'\<close> branch:
  \<^verbatim>\<open>while 1:
      if rs0[p0-1] == cs0[p1+s.tgt_loc[2]-1] and rs0[p0-2] == cs0[p1-2]:
          p0 = p0 - 1; p1 = p1 - 1
      else: break\<close>
  It ends by \<^verbatim>\<open>break\<close> or by an \<^verbatim>\<open>IndexError\<close> of one of its reads.
\<close>

function ins_shift ::
  "string \<Rightarrow> string \<Rightarrow> int \<Rightarrow> int \<Rightarrow> int \<Rightarrow> read_log \<Rightarrow> read_log \<times> (py_error + int \<times> int)"
where
  "ins_shift rs0 cs0 tlen p0 p1 lg =
     (case py_index rs0 (p0 - 1) of
        Inl e \<Rightarrow> (lg @ [(RS0, p0 - 1)], Inl e)
      | Inr a \<Rightarrow>
     (case py_index cs0 (p1 + tlen - 1) of
        Inl e \<Rightarrow> (lg @ [(RS0, p0 - 1), (CS0, p1 + tlen - 1)], Inl e)
      | Inr b \<Rightarrow>
     if a \<noteq> b then (lg @ [(RS0, p0 - 1), (CS0, p1 + tlen - 1)], Inr (p0, p1))
     else
     (case py_index rs0 (p0 - 2) of
        Inl e \<Rightarrow> (lg @ [(RS0, p0 - 1), (CS0, p1 + tlen - 1), (RS0, p0 - 2)], Inl e)
      | Inr c \<Rightarrow>
     (case py_index cs0 (p1 - 2) of
        Inl e \<Rightarrow>
          (lg @ [(RS0, p0 - 1), (CS0, p1 + tlen - 1), (RS0, p0 - 2), (CS0, p1 - 2)], Inl e)
      | Inr d \<Rightarrow>
     if c = d
     then ins_shift rs0 cs0 tlen (p0 - 1) (p1 - 1)
            (lg @ [(RS0, p0 - 1), (CS0, p1 + tlen - 1), (RS0, p0 - 2), (CS0, p1 - 2)])
     else (lg @ [(RS0, p0 - 1), (CS0, p1 + tlen - 1), (RS0, p0 - 2), (CS0, p1 - 2)],
           Inr (p0, p1))))))"
  by pat_completeness auto
termination
proof (relation "measure (\<lambda>(rs0, cs0, tlen, p0, p1, lg). nat (p0 + int (length rs0)))")
  show "wf (measure (\<lambda>(rs0, cs0, tlen, p0, p1, lg). nat (p0 + int (length rs0))))"
    by simp
next
  fix rs0 cs0 :: string and tlen p0 p1 :: int and lg :: read_log and a b c d :: char
  assume "py_index rs0 (p0 - 2) = Inr c"
  then have "0 \<le> p0 - 2 + int (length rs0)"
    by (auto simp: py_index_def split: if_splits)
  then show "((rs0, cs0, tlen, p0 - 1, p1 - 1,
                lg @ [(RS0, p0 - 1), (CS0, p1 + tlen - 1), (RS0, p0 - 2), (CS0, p1 - 2)]),
               (rs0, cs0, tlen, p0, p1, lg))
             \<in> measure (\<lambda>(rs0, cs0, tlen, p0, p1, lg). nat (p0 + int (length rs0)))"
    by simp
qed

text \<open>
  The loop of the \<^verbatim>\<open>'D'\<close> branch, whose condition also asks for \<open>p0 > 0\<close> and
  \<open>p1 > 0\<close>:
  \<^verbatim>\<open>while 1 and p0 > 0 and p1 > 0:
      if rs0[p0+s.ref_loc[2]-1] == cs0[p1-1] and rs0[p0-2] == cs0[p1-2]:
          p0 = p0 - 1; p1 = p1 - 1
      else: break\<close>
\<close>

function del_shift ::
  "string \<Rightarrow> string \<Rightarrow> int \<Rightarrow> int \<Rightarrow> int \<Rightarrow> read_log \<Rightarrow> read_log \<times> (py_error + int \<times> int)"
where
  "del_shift rs0 cs0 rlen p0 p1 lg =
     (if \<not> (p0 > 0 \<and> p1 > 0) then (lg, Inr (p0, p1))
      else
     (case py_index rs0 (p0 + rlen - 1) of
        Inl e \<Rightarrow> (lg @ [(RS0, p0 + rlen - 1)], Inl e)
      | Inr a \<Rightarrow>
     (case py_index cs0 (p1 - 1) of
        Inl e \<Rightarrow> (lg @ [(RS0, p0 + rlen - 1), (CS0, p1 - 1)], Inl e)
      | Inr b \<Rightarrow>
     if a \<noteq> b then (lg @ [(RS0, p0 + rlen - 1), (CS0, p1 - 1)], Inr (p0, p1))
     else
     (case py_index rs0 (p0 - 2) of
        Inl e \<Rightarrow> (lg @ [(RS0, p0 + rlen - 1), (CS0, p1 - 1), (RS0, p0 - 2)], Inl e)
      | Inr c \<Rightarrow>
     (case py_index cs0 (p1 - 2) of
        Inl e \<Rightarrow>
          (lg @ [(RS0, p0 + rlen - 1), (CS0, p1 - 1), (RS0, p0 - 2), (CS0, p1 - 2)], Inl e)
      | Inr d \<Rightarrow>
     if c = d
     then del_shift rs0 cs0 rlen (p0 - 1) (p1 - 1)
            (lg @ [(RS0, p0 + rlen - 1), (CS0, p1 - 1), (RS0, p0 - 2), (CS0, p1 - 2)])
     else (lg @ [(RS0, p0 + rlen - 1), (CS0, p1 - 1), (RS0, p0 - 2), (CS0, p1 - 2)],
           Inr (p0, p1)))))))"
  by pat_completeness auto
termination
  by (relation "measure (\<lambda>(rs0, cs0, rlen, p0, p1, lg). nat p0)") auto

text \<open>
  The dictionary \<^verbatim>\<open>variant_calls\<close> maps a key \<open>(ref_id, position)\<close> to a dictionary from
  \<open>(target id, strand)\<close> to the record
  \<^verbatim>\<open>(chr(s.t), ref_bases, alt_bases, (key[0], key[1], s.ref_loc[2]),
    (s.tgt_loc[0], ctg_bgn+s.tgt_loc[1], s.tgt_loc[2]), strand)\<close>.
\<close>

type_synonym variant_key = "nat \<times> int"

type_synonym variant_record =
  "char \<times> string \<times> string \<times> (nat \<times> int \<times> int) \<times> (nat \<times> int \<times> int) \<times> int"

type_synonym variant_calls = "variant_key \<rightharpoonup> ((nat \<times> int) \<rightharpoonup> variant_record)"

text \<open>
  \<^verbatim>\<open>key\<close>, \<^verbatim>\<open>ref_bases\<close> and \<^verbatim>\<open>alt_bases\<close> are local variables of the function, assigned
  together in each of the three branches. They keep their values from one iteration of the
  loop over the segments to the next, and are unbound until a branch has run.
\<close>

type_synonym seg_locals = "(variant_key \<times> string \<times> string) option"

text \<open>The three branches \<^verbatim>\<open>'X'\<close>, \<^verbatim>\<open>'I'\<close> and \<^verbatim>\<open>'D'\<close> of one iteration.\<close>

definition seg_branches ::
  "int \<Rightarrow> string \<Rightarrow> string \<Rightarrow> aln_segment \<Rightarrow> seg_locals \<Rightarrow> py_error + seg_locals"
where
  "seg_branches ref_bgn rs0 cs0 s lc =
     (let ref_id = loc_id (ref_loc s) in
      if t s = CHR ''X'' then
        Inr (Some ((ref_id, loc_bgn (ref_loc s) + ref_bgn + 1),
                   py_slice rs0 (loc_bgn (ref_loc s)) (loc_bgn (ref_loc s) + loc_len (ref_loc s)),
                   py_slice cs0 (loc_bgn (tgt_loc s)) (loc_bgn (tgt_loc s) + loc_len (tgt_loc s))))
      else if t s = CHR ''I'' then
        (case snd (ins_shift rs0 cs0 (loc_len (tgt_loc s))
                     (loc_bgn (ref_loc s)) (loc_bgn (tgt_loc s)) []) of
           Inl e \<Rightarrow> Inl e
         | Inr (p0, p1) \<Rightarrow>
             Inr (Some ((ref_id, p0 + ref_bgn),
                        py_slice rs0 (p0 - 1) (p0 + loc_len (ref_loc s)),
                        py_slice cs0 (p1 - 1) (p1 + loc_len (tgt_loc s)))))
      else if t s = CHR ''D'' then
        (case snd (del_shift rs0 cs0 (loc_len (ref_loc s))
                     (loc_bgn (ref_loc s)) (loc_bgn (tgt_loc s)) []) of
           Inl e \<Rightarrow> Inl e
         | Inr (p0, p1) \<Rightarrow>
             Inr (Some ((ref_id, p0 + ref_bgn),
                        py_slice rs0 (p0 - 1) (p0 + loc_len (ref_loc s)),
                        py_slice cs0 (p1 - 1) (p1 + loc_len (tgt_loc s)))))
      else Inr lc)"

text \<open>
  \<^verbatim>\<open>variant_calls.setdefault(key, {})\<close> followed by
  \<^verbatim>\<open>variant_calls[key][(s.tgt_loc[0], strand)] = value\<close>.
\<close>

definition store_call ::
  "variant_calls \<Rightarrow> variant_key \<Rightarrow> nat \<times> int \<Rightarrow> variant_record \<Rightarrow> variant_calls"
where
  "store_call vc key bucket v =
     vc(key \<mapsto> (case vc key of None \<Rightarrow> Map.empty | Some inner \<Rightarrow> inner)(bucket \<mapsto> v))"

text \<open>
  One iteration of \<^verbatim>\<open>for s in aln_segs\<close>. Everything below \<^verbatim>\<open>if s.t != ord('M')\<close> runs
  for every kind but \<^verbatim>\<open>'M'\<close>; reading an unbound local raises \<^verbatim>\<open>UnboundLocalError\<close>.
\<close>

definition seg_step ::
  "int \<Rightarrow> int \<Rightarrow> string \<Rightarrow> string \<Rightarrow> int \<Rightarrow> aln_segment \<Rightarrow> variant_calls \<times> seg_locals
     \<Rightarrow> py_error + variant_calls \<times> seg_locals"
where
  "seg_step ref_bgn ctg_bgn rs0 cs0 strand s st =
     (if t s \<noteq> CHR ''M'' then
        (case seg_branches ref_bgn rs0 cs0 s (snd st) of
           Inl e \<Rightarrow> Inl e
         | Inr None \<Rightarrow> Inl UnboundLocalError
         | Inr (Some (key, ref_bases, alt_bases)) \<Rightarrow>
             (let v = (t s, ref_bases, alt_bases,
                       (fst key, snd key, loc_len (ref_loc s)),
                       (loc_id (tgt_loc s), ctg_bgn + loc_bgn (tgt_loc s), loc_len (tgt_loc s)),
                       strand)
              in Inr (store_call (fst st) key (loc_id (tgt_loc s), strand) v,
                      Some (key, ref_bases, alt_bases))))
      else Inr st)"

fun segs_loop ::
  "int \<Rightarrow> int \<Rightarrow> string \<Rightarrow> string \<Rightarrow> int \<Rightarrow> aln_segment list \<Rightarrow> variant_calls \<times> seg_locals
     \<Rightarrow> py_error + variant_calls \<times> seg_locals"
where
  "segs_loop ref_bgn ctg_bgn rs0 cs0 strand [] st = Inr st"
| "segs_loop ref_bgn ctg_bgn rs0 cs0 strand (s # ss) st =
     (case seg_step ref_bgn ctg_bgn rs0 cs0 strand s st of
        Inl e \<Rightarrow> Inl e
      | Inr st' \<Rightarrow> segs_loop ref_bgn ctg_bgn rs0 cs0 strand ss st')"

definition get_variant_calls ::
  "aln_segment list \<Rightarrow> int \<Rightarrow> int \<Rightarrow> string \<Rightarrow> string \<Rightarrow> int \<Rightarrow> py_error + variant_calls"
where
  "get_variant_calls aln_segs ref_bgn ctg_bgn rs0 cs0 strand =
     (case segs_loop ref_bgn ctg_bgn rs0 cs0 strand aln_segs (Map.empty, None) of
        Inl e \<Rightarrow> Inl e
      | Inr st \<Rightarrow> Inr (fst st))"

section \<open>Dictionaries that keep insertion order\<close>

text \<open>
  A Python dictionary whose values are lists, filled by \<^verbatim>\<open>d.setdefault(k, [])\<close> followed
  by \<^verbatim>\<open>d[k].append(v)\<close>: a list of pairs in the order in which the keys were first
  inserted, which is the order \<^verbatim>\<open>d.items()\<close> iterates in.
\<close>

fun dict_append :: "'k \<Rightarrow> 'v \<Rightarrow> ('k \<times> 'v list) list \<Rightarrow> ('k \<times> 'v list) list" where
  "dict_append k v [] = [(k, [v])]"
| "dict_append k v ((k', vs) # d) =
     (if k = k' then (k', vs @ [v]) # d else (k', vs) # dict_append k v d)"

text \<open>\<^verbatim>\<open>d.get(k, [])\<close>: the list stored under a key, empty when the key is absent.\<close>

definition dict_get :: "('k \<times> 'v list) list \<Rightarrow> 'k \<Rightarrow> 'v list" where
  "dict_get d k = (case map_of d k of None \<Rightarrow> [] | Some vs \<Rightarrow> vs)"

section \<open>Merging regions: \<^verbatim>\<open>merge_regions\<close>\<close>

text \<open>
  A hit pair is \<open>((query_start, query_end, query_orientation),
  (target_start, target_end, target_orientation))\<close>, an alignment is a list of hit pairs,
  and a region is the tuple \<open>(bgn, end, length, orientation, aln)\<close>. Python compares
  tuples and lists lexicographically, which is the order of \<^typ>\<open>'a \<times> 'b\<close> and of
  \<^typ>\<open>'a list\<close> here.
\<close>

type_synonym hit_pair = "(nat \<times> nat \<times> nat) \<times> (nat \<times> nat \<times> nat)"

type_synonym aln = "hit_pair list"

type_synonym region = "int \<times> int \<times> int \<times> int \<times> aln"

definition rgn_bgn :: "int \<times> int \<times> int \<times> int \<times> 'a \<Rightarrow> int" where
  "rgn_bgn r = fst r"

definition rgn_end :: "int \<times> int \<times> int \<times> int \<times> 'a \<Rightarrow> int" where
  "rgn_end r = fst (snd r)"

definition rgn_len :: "int \<times> int \<times> int \<times> int \<times> 'a \<Rightarrow> int" where
  "rgn_len r = fst (snd (snd r))"

definition rgn_ori :: "int \<times> int \<times> int \<times> int \<times> 'a \<Rightarrow> int" where
  "rgn_ori r = fst (snd (snd (snd r)))"

definition rgn_aln :: "int \<times> int \<times> int \<times> int \<times> 'a \<Rightarrow> 'a" where
  "rgn_aln r = snd (snd (snd (snd r)))"

text \<open>
  The merge of \<^verbatim>\<open>r\<close> into the last kept region:
  \<^verbatim>\<open>fwd_rgns[-1][1] = r[1]; fwd_rgns[-1][2] += r[2]; fwd_rgns[-1][4] += r[4]\<close>.
\<close>

definition merge_into :: "region \<Rightarrow> region \<Rightarrow> region" where
  "merge_into k r =
     (rgn_bgn k, rgn_end r, rgn_len k + rgn_len r, rgn_ori k, rgn_aln k @ rgn_aln r)"

text \<open>
  The scan over the regions of one orientation; the state is the list of kept regions
  (\<^verbatim>\<open>fwd_rgns\<close> or \<^verbatim>\<open>rev_rgns\<close>) and the variable \<^verbatim>\<open>last\<close>, \<open>None\<close> at the start.
  The two loops of the source have the same body.
\<close>

fun merge_scan :: "int \<Rightarrow> region list \<Rightarrow> region list \<times> int option \<Rightarrow> region list \<times> int option"
where
  "merge_scan tol [] st = st"
| "merge_scan tol (r # rs) (kept, lst) =
     (case lst of
        None \<Rightarrow> merge_scan tol rs (kept @ [r], Some (rgn_end r))
      | Some l \<Rightarrow>
          if rgn_end r < rgn_end (last kept) then merge_scan tol rs (kept, lst)
          else if rgn_bgn r - l < tol then
            (let kept' = butlast kept @ [merge_into (last kept) r]
             in merge_scan tol rs (kept', Some (rgn_end (last kept'))))
          else
            (let kept' = kept @ [r]
             in merge_scan tol rs (kept', Some (rgn_end (last kept')))))"

text \<open>
  \<^verbatim>\<open>merge_regions\<close> on the values of the regions: the sorted list, the regions of
  orientation 0 and of orientation 1, one scan each, and the two results one after the
  other. The sorting of the caller's list in place and the sharing of the alignment lists
  are in the model with object identities further down.
\<close>

definition merge_regions :: "region list \<Rightarrow> int \<Rightarrow> region list" where
  "merge_regions rgns tol =
     (let srt = sort rgns;
          frgns = filter (\<lambda>r. rgn_ori r = 0) srt;
          rrgns = filter (\<lambda>r. rgn_ori r = 1) srt;
          fwd_rgns = fst (merge_scan tol frgns ([], None));
          rev_rgns = fst (merge_scan tol rrgns ([], None))
      in fwd_rgns @ rev_rgns)"



section \<open>Hit pairs to regions: \<^verbatim>\<open>query_sdb\<close>\<close>

text \<open>
  The result \<^verbatim>\<open>r\<close> of the index query \<^verbatim>\<open>seq_index_db.query_fragment_to_hps\<close> is the
  input here: a list of \<open>(sid, alns)\<close>, where \<open>alns\<close> is a list of
  \<open>(score, aln)\<close>. The score is not read.
\<close>

text \<open>
  \<^verbatim>\<open>for hp in aln: if hp[0][2] == hp[1][2]: f_count += 1 else: r_count += 1\<close>
\<close>

fun count_hps :: "aln \<Rightarrow> nat \<times> nat \<Rightarrow> nat \<times> nat" where
  "count_hps [] c = c"
| "count_hps (hp # hps) (f_count, r_count) =
     (if snd (snd (fst hp)) = snd (snd (snd hp))
      then count_hps hps (f_count + 1, r_count)
      else count_hps hps (f_count, r_count + 1))"

text \<open>
  The loop \<^verbatim>\<open>for s, aln in alns\<close> of one target id. The counters \<^verbatim>\<open>f_count\<close> and
  \<^verbatim>\<open>r_count\<close> are set to 0 before this loop, once for the target id, and are carried from
  one alignment to the next.
\<close>

fun alns_loop ::
  "nat \<Rightarrow> ('s \<times> aln) list \<Rightarrow> nat \<times> nat \<Rightarrow> (nat \<times> (aln \<times> int) list) list
     \<Rightarrow> (nat \<times> (aln \<times> int) list) list"
where
  "alns_loop sid [] c sid_to_alns = sid_to_alns"
| "alns_loop sid ((s, aln) # alns) c sid_to_alns =
     (if length aln > 2 then
        (let c' = count_hps aln c;
             orientation = (if fst c' > snd c' then 0 else 1)
         in alns_loop sid alns c' (dict_append sid (aln, orientation) sid_to_alns))
      else alns_loop sid alns c sid_to_alns)"

fun sids_loop ::
  "(nat \<times> ('s \<times> aln) list) list \<Rightarrow> (nat \<times> (aln \<times> int) list) list
     \<Rightarrow> (nat \<times> (aln \<times> int) list) list"
where
  "sids_loop [] sid_to_alns = sid_to_alns"
| "sids_loop ((sid, alns) # r) sid_to_alns =
     sids_loop r (alns_loop sid alns (0, 0) sid_to_alns)"

text \<open>
  \<^verbatim>\<open>target_coor = [(_[1][0], _[1][1]) for _ in aln]; target_coor.sort();
    bgn = min(target_coor[0]); end = max(target_coor[-1])\<close>.
  Indexing the empty list raises \<^verbatim>\<open>IndexError\<close>.
\<close>

definition target_coor :: "aln \<Rightarrow> (nat \<times> nat) list" where
  "target_coor aln = sort (map (\<lambda>hp. (fst (snd hp), fst (snd (snd hp)))) aln)"

definition aln_region :: "aln \<Rightarrow> int \<Rightarrow> py_error + region" where
  "aln_region aln orientation =
     (case target_coor aln of
        [] \<Rightarrow> Inl IndexError
      | c # cs \<Rightarrow>
          (let bgn = int (min (fst c) (snd c));
               end = int (max (fst (last (c # cs))) (snd (last (c # cs))))
           in Inr (bgn, end, end - bgn, orientation, aln)))"

text \<open>
  The retained alignments of a target id, for the statements below: the alignments with
  more than two hit pairs that the query result lists for the id, in the order of the
  result.
\<close>

definition retained :: "(nat \<times> ('s \<times> aln) list) list \<Rightarrow> nat \<Rightarrow> aln list" where
  "retained r sid =
     concat (map (\<lambda>p. if fst p = sid then filter (\<lambda>aln. 2 < length aln) (map snd (snd p)) else [])
               r)"

text \<open>
  The start and end values of the target intervals of all the hit pairs of an alignment,
  for the statements on the bounds of a region below.
\<close>

definition target_values :: "aln \<Rightarrow> nat list" where
  "target_values aln = concat (map (\<lambda>hp. [fst (snd hp), fst (snd (snd hp))]) aln)"

fun range_alns_loop ::
  "nat \<Rightarrow> (aln \<times> int) list \<Rightarrow> (nat \<times> region list) list \<Rightarrow> py_error + (nat \<times> region list) list"
where
  "range_alns_loop sid [] aln_range = Inr aln_range"
| "range_alns_loop sid ((aln, orientation) # alns) aln_range =
     (case aln_region aln orientation of
        Inl e \<Rightarrow> Inl e
      | Inr rg \<Rightarrow> range_alns_loop sid alns (dict_append sid rg aln_range))"

fun range_loop ::
  "(nat \<times> (aln \<times> int) list) list \<Rightarrow> (nat \<times> region list) list
     \<Rightarrow> py_error + (nat \<times> region list) list"
where
  "range_loop [] aln_range = Inr aln_range"
| "range_loop ((sid, alns) # rest) aln_range =
     (case range_alns_loop sid alns aln_range of
        Inl e \<Rightarrow> Inl e
      | Inr aln_range' \<Rightarrow> range_loop rest aln_range')"

definition query_sdb ::
  "(nat \<times> ('s \<times> aln) list) list \<Rightarrow> int \<Rightarrow> py_error + (nat \<times> region list) list"
where
  "query_sdb r merge_range_tol =
     (case range_loop (sids_loop r []) [] of
        Inl e \<Rightarrow> Inl e
      | Inr aln_range \<Rightarrow>
          if merge_range_tol > 0
          then Inr (map (\<lambda>(sid, rgns). (sid, merge_regions rgns merge_range_tol)) aln_range)
          else Inr aln_range)"

section \<open>\<^verbatim>\<open>merge_regions\<close> with object identities\<close>

text \<open>
  The fifth field of a region is a reference to a Python list object. \<^verbatim>\<open>r = list(r)\<close>
  copies the five fields of a region, so the copy refers to the same alignment list as the
  caller's tuple, and \<^verbatim>\<open>fwd_rgns[-1][4] += r[4]\<close> on a list extends that object in place.
  Here the alignment lists live in a store from addresses to values, a region holds an
  address, and the function returns the store after the call, the caller's list after
  \<^verbatim>\<open>rgns.sort()\<close> and the returned list.
\<close>

type_synonym addr = nat

type_synonym aln_store = "addr \<Rightarrow> aln"

type_synonym rgn_ref = "int \<times> int \<times> int \<times> int \<times> addr"

definition deref :: "aln_store \<Rightarrow> rgn_ref \<Rightarrow> region" where
  "deref h r = (rgn_bgn r, rgn_end r, rgn_len r, rgn_ori r, h (rgn_aln r))"

fun merge_scan_h ::
  "int \<Rightarrow> rgn_ref list \<Rightarrow> aln_store \<times> rgn_ref list \<times> int option
     \<Rightarrow> aln_store \<times> rgn_ref list \<times> int option"
where
  "merge_scan_h tol [] st = st"
| "merge_scan_h tol (r # rs) (h, kept, lst) =
     (case lst of
        None \<Rightarrow> merge_scan_h tol rs (h, kept @ [r], Some (rgn_end r))
      | Some l \<Rightarrow>
          if rgn_end r < rgn_end (last kept) then merge_scan_h tol rs (h, kept, lst)
          else if rgn_bgn r - l < tol then
            (let k = last kept;
                 k' = (rgn_bgn k, rgn_end r, rgn_len k + rgn_len r, rgn_ori k, rgn_aln k);
                 h' = h(rgn_aln k := h (rgn_aln k) @ h (rgn_aln r));
                 kept' = butlast kept @ [k']
             in merge_scan_h tol rs (h', kept', Some (rgn_end (last kept'))))
          else
            (let kept' = kept @ [r]
             in merge_scan_h tol rs (h, kept', Some (rgn_end (last kept')))))"

definition merge_regions_h ::
  "aln_store \<Rightarrow> rgn_ref list \<Rightarrow> int \<Rightarrow> aln_store \<times> rgn_ref list \<times> rgn_ref list"
where
  "merge_regions_h h rgns tol =
     (let srt = sort_key (deref h) rgns;
          frgns = filter (\<lambda>r. rgn_ori r = 0) srt;
          rrgns = filter (\<lambda>r. rgn_ori r = 1) srt;
          fwd = merge_scan_h tol frgns (h, [], None);
          rev = merge_scan_h tol rrgns (fst fwd, [], None)
      in (fst rev, srt, fst (snd fwd) @ fst (snd rev)))"

section \<open>Bundle partitions: \<^verbatim>\<open>group_smps_by_principle_bundle_id\<close>\<close>




















section \<open>Diffusion on a graph: \<^verbatim>\<open>compute_graph_diffusion_entropy\<close>\<close>

text \<open>
  The input is the list of the \<^verbatim>\<open>L\<close> lines of the file as triples
  \<open>(n1, n2, weight)\<close>, in the order of the file, with \<open>weight = 1\<close> where the line has no
  \<^verbatim>\<open>SC\<close> tag. The node ids are what \<^verbatim>\<open>int(r[1])\<close> and \<^verbatim>\<open>int(r[3])\<close> return, and the
  weight what \<^verbatim>\<open>int(f[2])\<close> returns: any integers.
\<close>

type_synonym edge = "int \<times> int \<times> int"

text \<open>
  \<^verbatim>\<open>adj_list.setdefault(n1, []); adj_list[n1].append((n2, weight));
    adj_list.setdefault(n2, []); adj_list[n2].append((n1, weight))\<close>
\<close>

fun adj_list_loop :: "edge list \<Rightarrow> (int \<times> (int \<times> int) list) list \<Rightarrow> (int \<times> (int \<times> int) list) list"
where
  "adj_list_loop [] adj_list = adj_list"
| "adj_list_loop ((n1, n2, weight) # es) adj_list =
     adj_list_loop es (dict_append n2 (n1, weight) (dict_append n1 (n2, weight) adj_list))"

text \<open>
  The arrays of the source are NumPy arrays of \<^verbatim>\<open>float32\<close> numbers. NumPy is not part of
  the repository, and its results depend on the rounding of every operation and on the
  order in which a sum is taken. Its operations are therefore parameters of the model:
  \<open>'f\<close> is the type of the array elements, and the record holds the operations that the
  function calls, with nothing assumed of any of them.

  \<^item> \<open>np_zero\<close>: an element of \<^verbatim>\<open>np.zeros(..., dtype=np.float32)\<close>;
  \<^item> \<open>np_store weight\<close>: the element that \<^verbatim>\<open>adj_matrix[v][w] = weight\<close> stores for the
    Python integer \<open>weight\<close>, or \<open>None\<close> where the integer is too large to be converted
    to a float and the assignment raises \<^verbatim>\<open>OverflowError\<close>;
  \<^item> \<open>np_sum row\<close>: the element of \<^verbatim>\<open>np.sum(adj_matrix, axis=1)\<close> for one row;
  \<^item> \<open>np_divide x y\<close>: one element of the quotient of two arrays (division by zero gives
    an infinity or a nan with a warning, not an exception);
  \<^item> \<open>np_ones_over n\<close>: an element of \<^verbatim>\<open>np.ones(n, dtype=np.float32)/n\<close>;
  \<^item> \<open>np_inner m yy\<close>: \<^verbatim>\<open>np.inner(m, yy)\<close> for a matrix and a vector;
  \<^item> \<open>np_times y n\<close>: one element of \<^verbatim>\<open>yy*n\<close> for the integer \<open>n\<close>.
\<close>

record 'f np_ops =
  np_zero :: 'f
  np_store :: "int \<Rightarrow> 'f option"
  np_sum :: "'f list \<Rightarrow> 'f"
  np_divide :: "'f \<Rightarrow> 'f \<Rightarrow> 'f"
  np_ones_over :: "nat \<Rightarrow> 'f"
  np_inner :: "'f list list \<Rightarrow> 'f list \<Rightarrow> 'f list"
  np_times :: "'f \<Rightarrow> nat \<Rightarrow> 'f"

text \<open>
  An integer index into an axis of length \<open>n\<close> of a NumPy array: a negative index counts
  from the end, and an index outside \<open>-n .. n - 1\<close> raises \<^verbatim>\<open>IndexError\<close>.
\<close>

definition np_index :: "nat \<Rightarrow> int \<Rightarrow> py_error + nat" where
  "np_index n i =
     (if 0 \<le> i \<and> i < int n then Inr (nat i)
      else if - int n \<le> i \<and> i < 0 then Inr (nat (int n + i))
      else Inl IndexError)"

text \<open>
  \<^verbatim>\<open>adj_matrix[v][w] = weight\<close>: the row \<^verbatim>\<open>adj_matrix[v]\<close> first, then the position \<open>w\<close>
  in it, then the conversion of the integer to an element, which is stored.
\<close>

definition set_entry ::
  "'f np_ops \<Rightarrow> 'f list list \<Rightarrow> int \<Rightarrow> int \<Rightarrow> int \<Rightarrow> py_error + 'f list list"
where
  "set_entry ops m v w weight =
     (case np_index (length m) v of
        Inl e \<Rightarrow> Inl e
      | Inr i \<Rightarrow>
          (case np_index (length (m ! i)) w of
             Inl e \<Rightarrow> Inl e
           | Inr j \<Rightarrow>
               (case np_store ops weight of
                  None \<Rightarrow> Inl OverflowError
                | Some x \<Rightarrow> Inr (m[i := (m ! i)[j := x]]))))"

fun fill_row ::
  "'f np_ops \<Rightarrow> int \<Rightarrow> (int \<times> int) list \<Rightarrow> 'f list list \<Rightarrow> py_error + 'f list list"
where
  "fill_row ops v [] m = Inr m"
| "fill_row ops v ((w, weight) # ws) m =
     (case set_entry ops m v w weight of
        Inl e \<Rightarrow> Inl e
      | Inr m' \<Rightarrow> fill_row ops v ws m')"

fun fill_matrix ::
  "'f np_ops \<Rightarrow> (int \<times> (int \<times> int) list) list \<Rightarrow> 'f list list \<Rightarrow> py_error + 'f list list"
where
  "fill_matrix ops [] m = Inr m"
| "fill_matrix ops ((v, ws) # adj_list) m =
     (case fill_row ops v ws m of
        Inl e \<Rightarrow> Inl e
      | Inr m' \<Rightarrow> fill_matrix ops adj_list m')"

text \<open>
  \<^verbatim>\<open>adj_matrix = np.zeros((n_node, n_node), dtype=np.float32);
    for v, ws in adj_list.items(): for w, weight in ws: adj_matrix[v][w] = weight\<close>
\<close>

definition adj_matrix ::
  "'f np_ops \<Rightarrow> (int \<times> (int \<times> int) list) list \<Rightarrow> py_error + 'f list list"
where
  "adj_matrix ops adj_list =
     (let n_node = length adj_list
      in fill_matrix ops adj_list (replicate n_node (replicate n_node (np_zero ops))))"

text \<open>
  \<^verbatim>\<open>n_adj_matrix = adj_matrix / np.sum(adj_matrix, axis=1)\<close>. The sum over axis 1 is the
  vector of the row sums. NumPy broadcasts a vector of length \<open>n\<close> against an \<open>n \<times> n\<close>
  array along the last axis: the entry in row \<open>i\<close> and column \<open>j\<close> is divided by the
  \<open>j\<close>-th element of the vector.
\<close>

definition row_sums :: "'f np_ops \<Rightarrow> 'f list list \<Rightarrow> 'f list" where
  "row_sums ops m = map (np_sum ops) m"

definition n_adj_matrix :: "'f np_ops \<Rightarrow> 'f list list \<Rightarrow> 'f list list" where
  "n_adj_matrix ops m = map (\<lambda>row. map2 (np_divide ops) row (row_sums ops m)) m"

text \<open>\<^verbatim>\<open>for i in range(n_node): yy = np.inner(n_adj_matrix, yy)\<close>\<close>

fun diffuse :: "'f np_ops \<Rightarrow> nat \<Rightarrow> 'f list list \<Rightarrow> 'f list \<Rightarrow> 'f list" where
  "diffuse ops 0 m yy = yy"
| "diffuse ops (Suc k) m yy = diffuse ops k m (np_inner ops m yy)"

text \<open>
  The function from \<^verbatim>\<open>n_node = len(adj_list)\<close> on. It returns \<^verbatim>\<open>None\<close> for a graph of
  more than \<^verbatim>\<open>max_nodes\<close> nodes, and otherwise the pair \<open>(entropy, weight_list)\<close> with
  \<^verbatim>\<open>weight_list = list(enumerate(yy*n_node))\<close>. The entropy is a sum of floating-point
  logarithms of \<^verbatim>\<open>yy\<close>; it raises no exception and is not part of the model, whose result
  is the weight list. NumPy is taken with its default settings, under which a division by
  zero or an overflow in an array operation is a warning and not an exception, and the
  allocation of the arrays is taken to succeed.
\<close>

definition compute_graph_diffusion_entropy ::
  "'f np_ops \<Rightarrow> edge list \<Rightarrow> int \<Rightarrow> py_error + (nat \<times> 'f) list option"
where
  "compute_graph_diffusion_entropy ops edges max_nodes =
     (let adj_list = adj_list_loop edges [];
          n_node = length adj_list
      in if int n_node > max_nodes then Inr None
         else
           (case adj_matrix ops adj_list of
              Inl e \<Rightarrow> Inl e
            | Inr m \<Rightarrow>
                (let one = replicate n_node (np_ones_over ops n_node);
                     yy = diffuse ops n_node (n_adj_matrix ops m) one;
                     scaled = map (\<lambda>y. np_times ops y n_node) yy
                 in Inr (Some (zip [0..<length scaled] scaled)))))"

text \<open>
  For the statements on the matrix: the set of the node ids of an edge list, the indices
  that an axis of length \<open>n\<close> accepts, and the shape of an \<open>n \<times> n\<close> matrix.
\<close>

definition node_ids :: "edge list \<Rightarrow> int set" where
  "node_ids edges = (\<Union>e\<in>set edges. {fst e, fst (snd e)})"

definition index_ok :: "nat \<Rightarrow> int \<Rightarrow> bool" where
  "index_ok n i = (- int n \<le> i \<and> i < int n)"

definition square :: "nat \<Rightarrow> 'a list list \<Rightarrow> bool" where
  "square n m = (length m = n \<and> (\<forall>row\<in>set m. length row = n))"

text \<open>
  The writes of one entry \<open>(v, ws)\<close> of the adjacency list: the indices are accepted
  (the row index \<open>v\<close> is used only when there is a write), and the weights can be stored.
\<close>

definition row_ids_ok :: "nat \<Rightarrow> int \<Rightarrow> (int \<times> int) list \<Rightarrow> bool" where
  "row_ids_ok n v ws = ((ws = [] \<or> index_ok n v) \<and> list_all (\<lambda>q. index_ok n (fst q)) ws)"

definition row_weights_ok :: "'f np_ops \<Rightarrow> (int \<times> int) list \<Rightarrow> bool" where
  "row_weights_ok ops ws = list_all (\<lambda>q. np_store ops (snd q) \<noteq> None) ws"

subsection \<open>The \<^verbatim>\<open>float32\<close> numbers that the examples compute\<close>

text \<open>
  The worked examples need values. They are computed on the \<^verbatim>\<open>float32\<close> numbers
  \<open>k / 4096\<close> for the integers \<open>k\<close> of absolute value below \<^verbatim>\<open>2**24\<close>, which a mantissa
  of 24 bits holds exactly; \<open>Exact q\<close> is the \<^verbatim>\<open>float32\<close> number equal to \<open>q\<close>, and
  \<open>Other\<close> is any other element (a number outside this set, an infinity, a nan).
  IEEE 754 arithmetic returns the rounded exact result, so an operation on such numbers
  whose exact result is such a number returns it. A sum of them is exact in whatever order
  it is taken when the sum of the absolute values is in the set, since then every partial
  sum is. Whatever this does not settle is \<open>Other\<close>. Python converts an integer to a
  float when its absolute value is below \<^verbatim>\<open>2**1024 - 2**970\<close>, the least value that rounds
  beyond the largest \<^verbatim>\<open>float\<close>.
\<close>

datatype f32 = Exact rat | Other

definition tracked :: "rat \<Rightarrow> bool" where
  "tracked q = (of_int \<lfloor>q * 4096\<rfloor> = q * 4096 \<and> \<bar>q * 4096\<bar> < 16777216)"

definition exact :: "rat \<Rightarrow> f32" where
  "exact q = (if tracked q then Exact q else Other)"

definition f32_divide :: "f32 \<Rightarrow> f32 \<Rightarrow> f32" where
  "f32_divide x y =
     (case x of
        Other \<Rightarrow> Other
      | Exact a \<Rightarrow>
          (case y of
             Other \<Rightarrow> Other
           | Exact b \<Rightarrow> if b = 0 then Other else exact (a / b)))"

definition f32_times :: "f32 \<Rightarrow> f32 \<Rightarrow> f32" where
  "f32_times x y =
     (case x of
        Other \<Rightarrow> Other
      | Exact a \<Rightarrow> (case y of Other \<Rightarrow> Other | Exact b \<Rightarrow> exact (a * b)))"

fun f32_values :: "f32 list \<Rightarrow> rat list option" where
  "f32_values [] = Some []"
| "f32_values (Other # xs) = None"
| "f32_values (Exact q # xs) = map_option ((#) q) (f32_values xs)"

definition f32_sum :: "f32 list \<Rightarrow> f32" where
  "f32_sum xs =
     (case f32_values xs of
        None \<Rightarrow> Other
      | Some qs \<Rightarrow> if tracked (sum_list (map abs qs)) then exact (sum_list qs) else Other)"

definition np_exact :: "f32 np_ops" where
  "np_exact =
     \<lparr> np_zero = Exact 0,
       np_store = (\<lambda>weight. if \<bar>weight\<bar> < 2 ^ 1024 - 2 ^ 970
                             then Some (exact (of_int weight)) else None),
       np_sum = f32_sum,
       np_divide = f32_divide,
       np_ones_over = (\<lambda>n. f32_divide (Exact 1) (exact (of_nat n))),
       np_inner = (\<lambda>m yy. map (\<lambda>row. f32_sum (map2 f32_times row yy)) m),
       np_times = (\<lambda>y n. f32_times y (exact (of_nat n))) \<rparr>"

section \<open>Properties of the dictionaries\<close>

lemma dict_append_keys:
  "map fst (dict_append k v d) = (if k \<in> fst ` set d then map fst d else map fst d @ [k])"
  by (induction k v d rule: dict_append.induct) auto

lemma dict_append_distinct:
  "distinct (map fst d) \<Longrightarrow> distinct (map fst (dict_append k v d))"
  by (simp add: dict_append_keys)

lemma dict_append_key_set:
  "fst ` set (dict_append k v d) = insert k (fst ` set d)"
proof -
  have "set (map fst (dict_append k v d)) = insert k (set (map fst d))"
    unfolding dict_append_keys by auto
  then show ?thesis by simp
qed

lemma dict_append_lists:
  assumes "(k', vs) \<in> set (dict_append k v d)"
  shows "vs \<noteq> [] \<and> set vs \<subseteq> insert v (\<Union>p\<in>set d. set (snd p)) \<or> (k', vs) \<in> set d"
  using assms by (induction k v d rule: dict_append.induct) (auto split: if_splits)

lemma dict_append_values:
  "(\<Union>p\<in>set (dict_append k v d). set (snd p)) = insert v (\<Union>p\<in>set d. set (snd p))"
  by (induction k v d rule: dict_append.induct) auto

lemma dict_get_append:
  "dict_get (dict_append k v d) k' = (if k' = k then dict_get d k @ [v] else dict_get d k')"
  by (induction k v d rule: dict_append.induct) (auto simp: dict_get_def)

lemma dict_get_member:
  assumes "distinct (map fst d)" "(k, vs) \<in> set d"
  shows "dict_get d k = vs"
  using assms by (simp add: dict_get_def)

lemma dict_get_concat:
  assumes "distinct (map fst d)" "f [] = []"
  shows "concat (map (\<lambda>p. if fst p = k then f (snd p) else []) d) = f (dict_get d k)"
  using assms
proof (induction d)
  case Nil
  then show ?case by (simp add: dict_get_def)
next
  case (Cons p d)
  obtain k' vs where p: "p = (k', vs)" by (cases p)
  show ?case
  proof (cases "k' = k")
    case True
    with Cons.prems p have "k \<notin> fst ` set d" by auto
    then have "concat (map (\<lambda>p. if fst p = k then f (snd p) else []) d) = []"
      by (induction d) auto
    with True p show ?thesis by (simp add: dict_get_def)
  next
    case False
    with Cons p show ?thesis by (simp add: dict_get_def)
  qed
qed

section \<open>Properties of \<^verbatim>\<open>get_variant_calls\<close>\<close>

text \<open>
  Claim C1 says that the shift loops of the insertion and of the deletion branch never
  read an index below 0 of the reference or of the contig string. The code does: for the
  reference \<^verbatim>\<open>AC\<close>, the contig \<^verbatim>\<open>AAC\<close> and the insertion of one base at offset 1, the
  loop reads \<^verbatim>\<open>rs0[-1]\<close> and \<^verbatim>\<open>cs0[-1]\<close>, which Python takes from the end of the
  strings, shifts to offset 0 and stores a record with empty bases; for the reference
  \<^verbatim>\<open>AAC\<close>, the contig \<^verbatim>\<open>AC\<close> and the deletion of one base at offset 1 the guard
  \<open>p0 > 0 and p1 > 0\<close> holds and the loop reads \<^verbatim>\<open>rs0[p0-2] = rs0[-1]\<close>.
\<close>

theorem shift_loops_read_below_zero:
  "ins_shift ''AC'' ''AAC'' 1 1 1 [] =
     ([(RS0, 0), (CS0, 1), (RS0, - 1), (CS0, - 1), (RS0, - 1), (CS0, 0)], Inr (0, 0))
   \<and> del_shift ''AAC'' ''AC'' 1 1 1 [] =
     ([(RS0, 1), (CS0, 0), (RS0, - 1), (CS0, - 1)], Inr (0, 0))
   \<and> get_variant_calls [\<lparr>ref_loc = (0, 1, 0), tgt_loc = (0, 1, 1), t = CHR ''I''\<rparr>]
        0 0 ''AC'' ''AAC'' 0
      = Inr [(0, 0) \<mapsto> [(0, 0) \<mapsto> (CHR ''I'', '''', '''', (0, 0, 0), (0, 1, 1), 0)]]"
  by (simp add: get_variant_calls_def seg_step_def seg_branches_def store_call_def
      py_index_def py_slice_def loc_id_def loc_bgn_def loc_len_def)

text \<open>
  Claim C4 says that segments of kind \<^verbatim>\<open>Unspecified\<close>, and of any kind outside the
  five defined ones, are skipped without error. The code skips only \<^verbatim>\<open>'M'\<close>: for any
  other byte it builds a record from the locals \<^verbatim>\<open>key\<close>, \<^verbatim>\<open>ref_bases\<close> and
  \<^verbatim>\<open>alt_bases\<close>. A segment of kind \<^verbatim>\<open>'?'\<close> alone raises \<^verbatim>\<open>UnboundLocalError\<close>; after a
  mismatch segment it stores a record of kind \<^verbatim>\<open>'?'\<close> under the key and with the bases of
  the mismatch, in the place of the mismatch record.
\<close>

theorem unspecified_segment_not_skipped:
  "get_variant_calls
       [\<lparr>ref_loc = (0, 2, 1), tgt_loc = (0, 2, 1), t = CHR ''?''\<rparr>] 10 20 ''ACG'' ''ATG'' 0
     = Inl UnboundLocalError
   \<and> get_variant_calls
       [\<lparr>ref_loc = (0, 1, 1), tgt_loc = (0, 1, 1), t = CHR ''X''\<rparr>,
        \<lparr>ref_loc = (0, 2, 1), tgt_loc = (0, 2, 1), t = CHR ''?''\<rparr>] 10 20 ''ACG'' ''ATG'' 0
     = Inr [(0, 12) \<mapsto> [(0, 0) \<mapsto> (CHR ''?'', ''C'', ''T'', (0, 12, 1), (0, 22, 1), 0)]]"
  by (simp add: get_variant_calls_def seg_step_def seg_branches_def store_call_def
      py_slice_def loc_id_def loc_bgn_def loc_len_def)

subsection \<open>One record for each key and bucket\<close>

lemma segs_loop_append:
  "segs_loop ref_bgn ctg_bgn rs0 cs0 strand (xs @ ys) st =
     (case segs_loop ref_bgn ctg_bgn rs0 cs0 strand xs st of
        Inl e \<Rightarrow> Inl e
      | Inr st' \<Rightarrow> segs_loop ref_bgn ctg_bgn rs0 cs0 strand ys st')"
  by (induction xs arbitrary: st) (auto split: sum.splits)

lemma seg_branches_locals:
  assumes "t s = CHR ''X'' \<or> t s = CHR ''I'' \<or> t s = CHR ''D''"
  shows "seg_branches ref_bgn rs0 cs0 s lc = seg_branches ref_bgn rs0 cs0 s None"
  using assms by (auto simp: seg_branches_def Let_def)

lemma store_call_other_bucket:
  assumes "vc key = Some inner" and "inner bucket = Some v" and "bucket' \<noteq> bucket"
  shows "\<exists>inner'. store_call vc key' bucket' v' key = Some inner' \<and> inner' bucket = Some v"
  using assms by (auto simp: store_call_def)

lemma store_call_other_key:
  assumes "vc key = Some inner" and "key' \<noteq> key"
  shows "store_call vc key' bucket' v' key = Some inner"
  using assms by (simp add: store_call_def)

lemma seg_step_stores:
  assumes kind: "t s = CHR ''X'' \<or> t s = CHR ''I'' \<or> t s = CHR ''D''"
    and step: "seg_step ref_bgn ctg_bgn rs0 cs0 strand s st = Inr st'"
  shows "\<exists>key ref_bases alt_bases inner.
           seg_branches ref_bgn rs0 cs0 s None = Inr (Some (key, ref_bases, alt_bases)) \<and>
           fst st' key = Some inner \<and>
           inner (fst (tgt_loc s), strand) =
             Some (t s, ref_bases, alt_bases,
                   (fst key, snd key, int (snd (snd (ref_loc s)))),
                   (fst (tgt_loc s), ctg_bgn + int (fst (snd (tgt_loc s))),
                    int (snd (snd (tgt_loc s)))),
                   strand)"
proof -
  from kind have nm: "t s \<noteq> CHR ''M''" by auto
  have eq: "seg_branches ref_bgn rs0 cs0 s (snd st) = seg_branches ref_bgn rs0 cs0 s None"
    by (rule seg_branches_locals [OF kind])
  from step nm eq obtain key rb ab where
    br: "seg_branches ref_bgn rs0 cs0 s None = Inr (Some (key, rb, ab))"
    by (auto simp: seg_step_def split: sum.splits option.splits)
  with step nm eq have "st' =
      (store_call (fst st) key (loc_id (tgt_loc s), strand)
         (t s, rb, ab, (fst key, snd key, loc_len (ref_loc s)),
          (loc_id (tgt_loc s), ctg_bgn + loc_bgn (tgt_loc s), loc_len (tgt_loc s)), strand),
       Some (key, rb, ab))"
    by (simp add: seg_step_def Let_def)
  with br show ?thesis
    by (simp add: store_call_def loc_id_def loc_bgn_def loc_len_def)
qed

lemma seg_step_keeps:
  assumes other: "t z = CHR ''M'' \<or> fst (tgt_loc z) \<noteq> tid \<or>
                  ((t z = CHR ''X'' \<or> t z = CHR ''I'' \<or> t z = CHR ''D'') \<and>
                   (\<forall>k rb ab. seg_branches ref_bgn rs0 cs0 z None = Inr (Some (k, rb, ab))
                      \<longrightarrow> k \<noteq> key))"
    and step: "seg_step ref_bgn ctg_bgn rs0 cs0 strand z st = Inr st'"
    and held: "fst st key = Some inner" "inner (tid, strand) = Some v"
  shows "\<exists>inner'. fst st' key = Some inner' \<and> inner' (tid, strand) = Some v"
proof (cases "t z = CHR ''M''")
  case True
  with step have "st' = st" by (simp add: seg_step_def)
  with held show ?thesis by simp
next
  case False
  from step False obtain k rb ab where
    br: "seg_branches ref_bgn rs0 cs0 z (snd st) = Inr (Some (k, rb, ab))"
    and st': "fst st' = store_call (fst st) k (loc_id (tgt_loc z), strand)
            (t z, rb, ab, (fst k, snd k, loc_len (ref_loc z)),
             (loc_id (tgt_loc z), ctg_bgn + loc_bgn (tgt_loc z), loc_len (tgt_loc z)), strand)"
    by (auto simp: seg_step_def Let_def split: sum.splits option.splits)
  show ?thesis
  proof (cases "fst (tgt_loc z) \<noteq> tid")
    case True
    then have ne: "(loc_id (tgt_loc z), strand) \<noteq> (tid, strand)"
      by (simp add: loc_id_def)
    show ?thesis unfolding st' using held ne by (auto simp: store_call_def)
  next
    case same: False
    with other False have kind: "t z = CHR ''X'' \<or> t z = CHR ''I'' \<or> t z = CHR ''D''"
      and keys: "\<forall>k rb ab. seg_branches ref_bgn rs0 cs0 z None = Inr (Some (k, rb, ab))
                   \<longrightarrow> k \<noteq> key"
      by auto
    from br seg_branches_locals [OF kind, of ref_bgn rs0 cs0 "snd st"]
    have "seg_branches ref_bgn rs0 cs0 z None = Inr (Some (k, rb, ab))" by simp
    with keys have "k \<noteq> key" by blast
    with held show ?thesis
      unfolding st' by (simp add: store_call_def)
  qed
qed

lemma segs_loop_keeps:
  assumes "\<forall>z\<in>set zs.
             t z = CHR ''M'' \<or> fst (tgt_loc z) \<noteq> tid \<or>
             ((t z = CHR ''X'' \<or> t z = CHR ''I'' \<or> t z = CHR ''D'') \<and>
              (\<forall>k rb ab. seg_branches ref_bgn rs0 cs0 z None = Inr (Some (k, rb, ab))
                 \<longrightarrow> k \<noteq> key))"
    and "segs_loop ref_bgn ctg_bgn rs0 cs0 strand zs st = Inr st'"
    and "fst st key = Some inner" "inner (tid, strand) = Some v"
  shows "\<exists>inner'. fst st' key = Some inner' \<and> inner' (tid, strand) = Some v"
  using assms
proof (induction zs arbitrary: st inner)
  case Nil
  then show ?case by simp
next
  case (Cons z zs)
  from Cons.prems(2) obtain st1 where
    s1: "seg_step ref_bgn ctg_bgn rs0 cs0 strand z st = Inr st1"
    and s2: "segs_loop ref_bgn ctg_bgn rs0 cs0 strand zs st1 = Inr st'"
    by (auto split: sum.splits)
  from Cons.prems(1) have z:
    "t z = CHR ''M'' \<or> fst (tgt_loc z) \<noteq> tid \<or>
     ((t z = CHR ''X'' \<or> t z = CHR ''I'' \<or> t z = CHR ''D'') \<and>
      (\<forall>k rb ab. seg_branches ref_bgn rs0 cs0 z None = Inr (Some (k, rb, ab)) \<longrightarrow> k \<noteq> key))"
    by simp
  from Cons.prems(1) have rest:
    "\<forall>z\<in>set zs.
       t z = CHR ''M'' \<or> fst (tgt_loc z) \<noteq> tid \<or>
       ((t z = CHR ''X'' \<or> t z = CHR ''I'' \<or> t z = CHR ''D'') \<and>
        (\<forall>k rb ab. seg_branches ref_bgn rs0 cs0 z None = Inr (Some (k, rb, ab)) \<longrightarrow> k \<noteq> key))"
    by simp
  from seg_step_keeps [OF z s1 Cons.prems(3,4)] obtain inner1 where
    "fst st1 key = Some inner1" "inner1 (tid, strand) = Some v" by blast
  from Cons.IH [OF rest s2 this] show ?case .
qed

text \<open>
  Claim C8: the mapping holds one record for each outer key and inner key, and where two
  segments of the list store under the same key and the same \<open>(target id, strand)\<close>, the
  record of the later one is what the result holds. Let \<open>s\<close> be a segment of kind
  \<^verbatim>\<open>'X'\<close>, \<^verbatim>\<open>'I'\<close> or \<^verbatim>\<open>'D'\<close> anywhere in the list, with the key \<open>key\<close> and the bases
  that its branch computes. Whatever the segments before \<open>s\<close> stored under that key and
  bucket, the returned mapping holds there the record built from \<open>s\<close>, as long as every
  segment after \<open>s\<close> is a match, or belongs to another target id, or is a variant
  (\<^verbatim>\<open>'X'\<close>, \<^verbatim>\<open>'I'\<close>, \<^verbatim>\<open>'D'\<close>) with another key; a later variant with the same key and
  bucket is the later segment of the claim, and the statement holds for it in turn. In the
  example that follows, a mismatch at offset 1 and an insertion at offset 2 have the same key and are
  followed by a mismatch with another key: the record of the first mismatch is gone, the
  other two are there.
\<close>

theorem later_record_replaces_earlier:
  assumes call: "get_variant_calls (xs @ s # zs) ref_bgn ctg_bgn rs0 cs0 strand = Inr vc"
    and kind: "t s = CHR ''X'' \<or> t s = CHR ''I'' \<or> t s = CHR ''D''"
    and branch: "seg_branches ref_bgn rs0 cs0 s None = Inr (Some (key, ref_bases, alt_bases))"
    and rest: "\<forall>z\<in>set zs.
                 t z = CHR ''M'' \<or> fst (tgt_loc z) \<noteq> fst (tgt_loc s) \<or>
                 ((t z = CHR ''X'' \<or> t z = CHR ''I'' \<or> t z = CHR ''D'') \<and>
                  (\<forall>k rb ab. seg_branches ref_bgn rs0 cs0 z None = Inr (Some (k, rb, ab))
                     \<longrightarrow> k \<noteq> key))"
  shows "\<exists>inner.
           vc key = Some inner \<and>
           inner (fst (tgt_loc s), strand) =
             Some (t s, ref_bases, alt_bases,
                   (fst key, snd key, int (snd (snd (ref_loc s)))),
                   (fst (tgt_loc s), ctg_bgn + int (fst (snd (tgt_loc s))),
                    int (snd (snd (tgt_loc s)))),
                   strand)"
proof -
  from call obtain st0 st1 st2 where
    a: "segs_loop ref_bgn ctg_bgn rs0 cs0 strand xs (Map.empty, None) = Inr st0"
    and b: "seg_step ref_bgn ctg_bgn rs0 cs0 strand s st0 = Inr st1"
    and c: "segs_loop ref_bgn ctg_bgn rs0 cs0 strand zs st1 = Inr st2"
    and vc: "vc = fst st2"
    by (auto simp: get_variant_calls_def segs_loop_append split: sum.splits)
  from seg_step_stores [OF kind b] branch obtain inner where
    h1: "fst st1 key = Some inner"
    and h2: "inner (fst (tgt_loc s), strand) =
             Some (t s, ref_bases, alt_bases,
                   (fst key, snd key, int (snd (snd (ref_loc s)))),
                   (fst (tgt_loc s), ctg_bgn + int (fst (snd (tgt_loc s))),
                    int (snd (snd (tgt_loc s)))),
                   strand)"
    by auto
  from segs_loop_keeps [OF rest c h1 h2] vc show ?thesis by blast
qed

theorem later_record_replaces_earlier_witness:
  "get_variant_calls
     ([\<lparr>ref_loc = (0, 1, 1), tgt_loc = (0, 1, 1), t = CHR ''X''\<rparr>]
      @ \<lparr>ref_loc = (0, 2, 0), tgt_loc = (0, 2, 1), t = CHR ''I''\<rparr>
      # [\<lparr>ref_loc = (0, 2, 1), tgt_loc = (0, 3, 1), t = CHR ''M''\<rparr>,
         \<lparr>ref_loc = (0, 3, 1), tgt_loc = (0, 4, 1), t = CHR ''X''\<rparr>]) 10 20 ''ACGT'' ''ATTGA'' 0
   = Inr [(0, 12) \<mapsto> [(0, 0) \<mapsto> (CHR ''I'', ''C'', ''TT'', (0, 12, 0), (0, 22, 1), 0)],
          (0, 14) \<mapsto> [(0, 0) \<mapsto> (CHR ''X'', ''T'', ''A'', (0, 14, 1), (0, 24, 1), 0)]]
   \<and> get_variant_calls
     [\<lparr>ref_loc = (0, 1, 1), tgt_loc = (0, 1, 1), t = CHR ''X''\<rparr>] 10 20 ''ACGT'' ''ATTGA'' 0
   = Inr [(0, 12) \<mapsto> [(0, 0) \<mapsto> (CHR ''X'', ''C'', ''T'', (0, 12, 1), (0, 21, 1), 0)]]
   \<and> seg_branches 10 ''ACGT'' ''ATTGA''
        \<lparr>ref_loc = (0, 2, 0), tgt_loc = (0, 2, 1), t = CHR ''I''\<rparr> None
      = Inr (Some ((0, 12), ''C'', ''TT''))
   \<and> (\<exists>inner.
        ([(0, 12) \<mapsto> [(0, 0) \<mapsto> (CHR ''I'', ''C'', ''TT'', (0, 12, 0), (0, 22, 1), 0)],
          (0, 14) \<mapsto> [(0, 0) \<mapsto> (CHR ''X'', ''T'', ''A'', (0, 14, 1), (0, 24, 1), 0)]]
           :: variant_calls) (0, 12) = Some inner \<and>
        inner (0, 0) = Some (CHR ''I'', ''C'', ''TT'', (0, 12, 0), (0, 22, 1), 0))"
proof -
  let ?s = "\<lparr>ref_loc = (0, 2, 0), tgt_loc = (0, 2, 1), t = CHR ''I''\<rparr>"
  let ?zs = "[\<lparr>ref_loc = (0, 2, 1), tgt_loc = (0, 3, 1), t = CHR ''M''\<rparr>,
              \<lparr>ref_loc = (0, 3, 1), tgt_loc = (0, 4, 1), t = CHR ''X''\<rparr>]"
  let ?vc = "[(0, 12) \<mapsto> [(0, 0) \<mapsto> (CHR ''I'', ''C'', ''TT'', (0, 12, 0), (0, 22, 1), 0)],
              (0, 14) \<mapsto> [(0, 0) \<mapsto> (CHR ''X'', ''T'', ''A'', (0, 14, 1), (0, 24, 1), 0)]]
             :: variant_calls"
  have call: "get_variant_calls
     ([\<lparr>ref_loc = (0, 1, 1), tgt_loc = (0, 1, 1), t = CHR ''X''\<rparr>] @ ?s # ?zs)
     10 20 ''ACGT'' ''ATTGA'' 0 = Inr ?vc"
    by (simp add: get_variant_calls_def seg_step_def seg_branches_def store_call_def
        py_index_def py_slice_def loc_id_def loc_bgn_def loc_len_def)
  have first: "get_variant_calls
     [\<lparr>ref_loc = (0, 1, 1), tgt_loc = (0, 1, 1), t = CHR ''X''\<rparr>] 10 20 ''ACGT'' ''ATTGA'' 0
   = Inr [(0, 12) \<mapsto> [(0, 0) \<mapsto> (CHR ''X'', ''C'', ''T'', (0, 12, 1), (0, 21, 1), 0)]]"
    by (simp add: get_variant_calls_def seg_step_def seg_branches_def store_call_def
        py_index_def py_slice_def loc_id_def loc_bgn_def loc_len_def)
  have kind: "t ?s = CHR ''X'' \<or> t ?s = CHR ''I'' \<or> t ?s = CHR ''D''"
    by simp
  have branch: "seg_branches 10 ''ACGT'' ''ATTGA'' ?s None = Inr (Some ((0, 12), ''C'', ''TT''))"
    by (simp add: seg_branches_def py_index_def py_slice_def loc_id_def loc_bgn_def loc_len_def)
  have rest: "\<forall>z\<in>set ?zs.
     t z = CHR ''M'' \<or> fst (tgt_loc z) \<noteq> fst (tgt_loc ?s) \<or>
     ((t z = CHR ''X'' \<or> t z = CHR ''I'' \<or> t z = CHR ''D'') \<and>
      (\<forall>k rb ab. seg_branches 10 ''ACGT'' ''ATTGA'' z None = Inr (Some (k, rb, ab))
         \<longrightarrow> k \<noteq> (0, 12)))"
    by (simp add: seg_branches_def py_slice_def loc_id_def loc_bgn_def loc_len_def)
  have "\<exists>inner. ?vc (0, 12) = Some inner \<and>
        inner (0, 0) = Some (CHR ''I'', ''C'', ''TT'', (0, 12, 0), (0, 22, 1), 0)"
    using later_record_replaces_earlier [OF call kind branch rest] by simp
  with call first branch show ?thesis by blast
qed

section \<open>Properties of \<^verbatim>\<open>query_sdb\<close>\<close>

text \<open>
  Claim C2 says that the orientation of a region is 0 exactly when, among the hit pairs of
  its own alignment, those with equal orientation bits outnumber the others. The code
  counts over all the alignments of the target id seen so far: \<^verbatim>\<open>f_count\<close> and
  \<^verbatim>\<open>r_count\<close> are reset once for the target id, not for each alignment. For a target id
  with an alignment of four agreeing hit pairs followed by an alignment of three
  disagreeing ones (0 agreeing against 3), the second region gets orientation 0, from the
  running counts 4 and 3.
\<close>

theorem orientation_counts_carry_over:
  "query_sdb
     [(7, [(0::int, [((0, 10, 0), (100, 110, 0)), ((20, 30, 0), (120, 130, 0)),
                     ((40, 50, 0), (140, 150, 0)), ((60, 70, 0), (160, 170, 0))]),
           (0, [((0, 10, 0), (500, 510, 1)), ((20, 30, 0), (480, 490, 1)),
                ((40, 50, 0), (460, 470, 1))])])] 0
   = Inr [(7, [(100, 170, 70, 0,
                 [((0, 10, 0), (100, 110, 0)), ((20, 30, 0), (120, 130, 0)),
                  ((40, 50, 0), (140, 150, 0)), ((60, 70, 0), (160, 170, 0))]),
               (460, 510, 50, 0,
                 [((0, 10, 0), (500, 510, 1)), ((20, 30, 0), (480, 490, 1)),
                  ((40, 50, 0), (460, 470, 1))])])]
   \<and> count_hps [((0, 10, 0), (500, 510, 1)), ((20, 30, 0), (480, 490, 1)),
                ((40, 50, 0), (460, 470, 1))] (0, 0) = (0, 3)"
  by (simp add: query_sdb_def aln_region_def target_coor_def)

subsection \<open>The regions of the retained alignments\<close>

lemma alns_loop_values:
  "(\<Union>p\<in>set (alns_loop sid alns c d). set (snd p))
     \<subseteq> (\<Union>p\<in>set d. set (snd p)) \<union> {ao. 2 < length (fst ao)}"
proof (induction alns arbitrary: c d)
  case Nil
  then show ?case by simp
next
  case (Cons sa alns)
  obtain s aln where sa: "sa = (s, aln)" by (cases sa)
  show ?case
  proof (cases "2 < length aln")
    case True
    have "(\<Union>p\<in>set (alns_loop sid (sa # alns) c d). set (snd p))
            \<subseteq> (\<Union>p\<in>set (dict_append sid (aln, if fst (count_hps aln c) > snd (count_hps aln c) then 0 else 1) d). set (snd p))
                \<union> {ao. 2 < length (fst ao)}"
      using True Cons.IH by (simp add: sa Let_def)
    also have "\<dots> \<subseteq> (\<Union>p\<in>set d. set (snd p)) \<union> {ao. 2 < length (fst ao)}"
      using True by (auto simp: dict_append_values)
    finally show ?thesis .
  next
    case False
    then show ?thesis using Cons.IH by (simp add: sa)
  qed
qed

lemma sids_loop_values:
  "(\<Union>p\<in>set (sids_loop r d). set (snd p))
     \<subseteq> (\<Union>p\<in>set d. set (snd p)) \<union> {ao. 2 < length (fst ao)}"
proof (induction r arbitrary: d)
  case Nil
  then show ?case by simp
next
  case (Cons x r)
  obtain sid alns where x: "x = (sid, alns)" by (cases x)
  have "(\<Union>p\<in>set (sids_loop (x # r) d). set (snd p))
          \<subseteq> (\<Union>p\<in>set (alns_loop sid alns (0, 0) d). set (snd p)) \<union> {ao. 2 < length (fst ao)}"
    using Cons.IH by (simp add: x)
  also have "\<dots> \<subseteq> (\<Union>p\<in>set d. set (snd p)) \<union> {ao. 2 < length (fst ao)}"
    using alns_loop_values [of sid alns "(0, 0)" d] by blast
  finally show ?case .
qed

lemma range_alns_loop_values:
  assumes "range_alns_loop sid alns d = Inr d'"
  shows "(\<Union>p\<in>set d'. set (snd p))
     \<subseteq> (\<Union>p\<in>set d. set (snd p)) \<union> {rg. \<exists>ao\<in>set alns. aln_region (fst ao) (snd ao) = Inr rg}"
  using assms
proof (induction alns arbitrary: d)
  case Nil
  then show ?case by simp
next
  case (Cons ao alns)
  obtain aln ori where ao: "ao = (aln, ori)" by (cases ao)
  from Cons.prems obtain rg where
    rg: "aln_region aln ori = Inr rg"
    and rest: "range_alns_loop sid alns (dict_append sid rg d) = Inr d'"
    by (auto simp: ao split: sum.splits)
  from Cons.IH [OF rest] rg show ?case
    by (auto simp: dict_append_values ao)
qed

lemma range_loop_values:
  assumes "range_loop xs d = Inr d'"
  shows "(\<Union>p\<in>set d'. set (snd p))
     \<subseteq> (\<Union>p\<in>set d. set (snd p))
        \<union> {rg. \<exists>ao\<in>(\<Union>p\<in>set xs. set (snd p)). aln_region (fst ao) (snd ao) = Inr rg}"
  using assms
proof (induction xs arbitrary: d)
  case Nil
  then show ?case by simp
next
  case (Cons x xs)
  obtain sid alns where x: "x = (sid, alns)" by (cases x)
  from Cons.prems obtain d1 where
    d1: "range_alns_loop sid alns d = Inr d1" and rest: "range_loop xs d1 = Inr d'"
    by (auto simp: x split: sum.splits)
  have split: "{rg. \<exists>ao\<in>(\<Union>p\<in>set (x # xs). set (snd p)). aln_region (fst ao) (snd ao) = Inr rg}
      = {rg. \<exists>ao\<in>set alns. aln_region (fst ao) (snd ao) = Inr rg}
        \<union> {rg. \<exists>ao\<in>(\<Union>p\<in>set xs. set (snd p)). aln_region (fst ao) (snd ao) = Inr rg}"
    by (auto simp: x)
  from Cons.IH [OF rest] range_alns_loop_values [OF d1] show ?case
    unfolding split by blast
qed

lemma query_sdb_regions:
  assumes q: "query_sdb r tol = Inr out" and tol: "tol \<le> 0"
    and mem: "(sid, rgns) \<in> set out" "rg \<in> set rgns"
  shows "\<exists>aln ori. 2 < length aln \<and> aln_region aln ori = Inr rg"
proof -
  from q tol have rl: "range_loop (sids_loop r []) [] = Inr out"
    by (auto simp: query_sdb_def split: sum.splits)
  from mem have "rg \<in> (\<Union>p\<in>set out. set (snd p))" by force
  with range_loop_values [OF rl]
  have "rg \<in> {rg. \<exists>ao\<in>(\<Union>p\<in>set (sids_loop r []). set (snd p)).
                 aln_region (fst ao) (snd ao) = Inr rg}"
    by auto
  then obtain ao where
    ao: "ao \<in> (\<Union>p\<in>set (sids_loop r []). set (snd p))"
    and rg: "aln_region (fst ao) (snd ao) = Inr rg"
    by blast
  from ao sids_loop_values [of r "[]"] have "2 < length (fst ao)" by auto
  with rg show ?thesis by blast
qed

lemma sorted_hd_Min:
  fixes ys :: "'a::linorder list"
  assumes "sorted ys" "ys \<noteq> []"
  shows "hd ys = Min (set ys)"
proof (cases ys)
  case Nil
  with assms show ?thesis by simp
next
  case (Cons y ys')
  with assms have "\<forall>z\<in>set ys. y \<le> z" by auto
  then have "Min (set ys) = y" using Cons by (intro Min_eqI) auto
  with Cons show ?thesis by simp
qed

lemma sorted_last_Max:
  fixes ys :: "'a::linorder list"
  assumes "sorted ys" "ys \<noteq> []"
  shows "last ys = Max (set ys)"
proof -
  from assms have "\<forall>z\<in>set ys. z \<le> last ys"
    by (induction ys) (auto split: if_splits)
  then have "Max (set ys) = last ys" using assms by (intro Max_eqI) auto
  then show ?thesis by simp
qed

lemma target_coor_set:
  "set (target_coor aln) = (\<lambda>hp. (fst (snd hp), fst (snd (snd hp)))) ` set aln"
  by (simp add: target_coor_def)

lemma target_values_set:
  "set (target_values aln) = fst ` set (target_coor aln) \<union> snd ` set (target_coor aln)"
proof -
  have "set (target_values aln) = (\<Union>hp\<in>set aln. {fst (snd hp), fst (snd (snd hp))})"
    by (simp add: target_values_def)
  also have "\<dots> = fst ` set (target_coor aln) \<union> snd ` set (target_coor aln)"
    unfolding target_coor_set image_image by (simp add: UN_insert_distrib) blast
  finally show ?thesis .
qed

lemma aln_region_fields:
  assumes "aln_region aln ori = Inr rg"
  shows "rgn_aln rg = aln \<and> rgn_ori rg = ori \<and> aln \<noteq> [] \<and>
         rgn_bgn rg = int (min (fst (Min (set (target_coor aln)))) (snd (Min (set (target_coor aln))))) \<and>
         rgn_end rg = int (max (fst (Max (set (target_coor aln)))) (snd (Max (set (target_coor aln))))) \<and>
         rgn_len rg = rgn_end rg - rgn_bgn rg"
proof -
  have srt: "sorted (target_coor aln)" by (simp add: target_coor_def)
  from assms obtain c cs where cs: "target_coor aln = c # cs"
    by (auto simp: aln_region_def split: list.splits)
  then have ne: "target_coor aln \<noteq> []" by simp
  then have ane: "aln \<noteq> []" by (auto simp: target_coor_def)
  from sorted_hd_Min [OF srt ne] cs have c: "c = Min (set (target_coor aln))" by simp
  from sorted_last_Max [OF srt ne] cs have l: "last (c # cs) = Max (set (target_coor aln))" by simp
  from assms cs have "rg = (int (min (fst c) (snd c)),
                            int (max (fst (last (c # cs))) (snd (last (c # cs)))),
                            int (max (fst (last (c # cs))) (snd (last (c # cs)))) - int (min (fst c) (snd c)),
                            ori, aln)"
    by (simp add: aln_region_def Let_def)
  with c l ane show ?thesis
    by (simp add: rgn_bgn_def rgn_end_def rgn_len_def rgn_ori_def rgn_aln_def)
qed

lemma lex_Min_fst:
  fixes C :: "(nat \<times> nat) set"
  assumes "finite C" "C \<noteq> {}" "\<forall>c\<in>C. fst c \<le> snd c"
  shows "min (fst (Min C)) (snd (Min C)) = Min (fst ` C \<union> snd ` C)"
proof -
  have mem: "Min C \<in> C" using assms by simp
  have le: "\<forall>c\<in>C. fst (Min C) \<le> fst c"
  proof
    fix c assume "c \<in> C"
    then have "Min C \<le> c" using assms by simp
    then show "fst (Min C) \<le> fst c" by (auto simp: prod_le_def)
  qed
  have "Min (fst ` C \<union> snd ` C) = fst (Min C)"
  proof (rule Min_eqI)
    show "finite (fst ` C \<union> snd ` C)" using assms by simp
    show "fst (Min C) \<in> fst ` C \<union> snd ` C" using mem by blast
    fix y assume "y \<in> fst ` C \<union> snd ` C"
    then obtain c where "c \<in> C" "y = fst c \<or> y = snd c" by blast
    with le assms(3) show "fst (Min C) \<le> y" by (metis le_trans)
  qed
  moreover from mem assms(3) have "fst (Min C) \<le> snd (Min C)" by blast
  ultimately show ?thesis by simp
qed

lemma lex_Max_snd:
  fixes C :: "(nat \<times> nat) set"
  assumes "finite C" "C \<noteq> {}" "\<forall>c\<in>C. fst c \<le> snd c" "\<forall>c\<in>C. snd c \<le> snd (Max C)"
  shows "max (fst (Max C)) (snd (Max C)) = Max (fst ` C \<union> snd ` C)"
proof -
  have mem: "Max C \<in> C" using assms by simp
  have "Max (fst ` C \<union> snd ` C) = snd (Max C)"
  proof (rule Max_eqI)
    show "finite (fst ` C \<union> snd ` C)" using assms by simp
    show "snd (Max C) \<in> fst ` C \<union> snd ` C" using mem by blast
    fix y assume "y \<in> fst ` C \<union> snd ` C"
    then obtain c where "c \<in> C" "y = fst c \<or> y = snd c" by blast
    with assms(3,4) show "y \<le> snd (Max C)" by (metis le_trans)
  qed
  moreover from mem assms(3) have "fst (Max C) \<le> snd (Max C)" by blast
  ultimately show ?thesis by simp
qed

lemma alns_loop_distinct:
  "distinct (map fst d) \<Longrightarrow> distinct (map fst (alns_loop sid alns c d))"
proof (induction alns arbitrary: c d)
  case Nil
  then show ?case by simp
next
  case (Cons sa alns)
  obtain s aln where sa: "sa = (s, aln)" by (cases sa)
  from Cons show ?case by (simp add: sa Let_def dict_append_distinct)
qed

lemma sids_loop_distinct:
  "distinct (map fst d) \<Longrightarrow> distinct (map fst (sids_loop r d))"
proof (induction r arbitrary: d)
  case Nil
  then show ?case by simp
next
  case (Cons x r)
  obtain sid alns where x: "x = (sid, alns)" by (cases x)
  from Cons show ?case by (simp add: x alns_loop_distinct)
qed

lemma alns_loop_get:
  "map fst (dict_get (alns_loop sid alns c d) k)
     = map fst (dict_get d k)
       @ (if k = sid then filter (\<lambda>aln. 2 < length aln) (map snd alns) else [])"
proof (induction alns arbitrary: c d)
  case Nil
  then show ?case by simp
next
  case (Cons sa alns)
  obtain s aln where sa: "sa = (s, aln)" by (cases sa)
  show ?case
  proof (cases "k = sid")
    case True
    from True Cons.IH have IH':
      "\<And>c d. map fst (dict_get (alns_loop sid alns c d) sid)
         = map fst (dict_get d sid) @ filter (\<lambda>aln. 2 < length aln) (map snd alns)"
      by simp
    show ?thesis unfolding True
      by (simp add: sa Let_def IH' dict_get_append)
  next
    case False
    then show ?thesis by (simp add: sa Let_def Cons.IH dict_get_append)
  qed
qed

lemma sids_loop_get:
  "map fst (dict_get (sids_loop r d) k) = map fst (dict_get d k) @ retained r k"
proof (induction r arbitrary: d)
  case Nil
  then show ?case by (simp add: retained_def)
next
  case (Cons x r)
  obtain sid alns where x: "x = (sid, alns)" by (cases x)
  show ?case by (simp add: x Cons.IH alns_loop_get retained_def)
qed

lemma aln_region_returns:
  "aln \<noteq> [] \<Longrightarrow> \<exists>rg. aln_region aln ori = Inr rg \<and> rgn_aln rg = aln"
proof -
  assume "aln \<noteq> []"
  moreover have "length (target_coor aln) = length aln" by (simp add: target_coor_def)
  ultimately have "target_coor aln \<noteq> []" by auto
  then obtain c cs where "target_coor aln = c # cs" by (cases "target_coor aln") auto
  then show ?thesis by (simp add: aln_region_def Let_def rgn_aln_def)
qed

lemma range_alns_loop_get:
  assumes "\<forall>ao\<in>set alns. fst ao \<noteq> []"
  shows "\<exists>d'. range_alns_loop sid alns d = Inr d' \<and>
           (distinct (map fst d) \<longrightarrow> distinct (map fst d')) \<and>
           (\<forall>k. map rgn_aln (dict_get d' k)
                  = map rgn_aln (dict_get d k) @ (if k = sid then map fst alns else []))"
  using assms
proof (induction alns arbitrary: d)
  case Nil
  then show ?case by simp
next
  case (Cons ao alns)
  obtain aln ori where ao: "ao = (aln, ori)" by (cases ao)
  from Cons.prems ao have "aln \<noteq> []" by simp
  from aln_region_returns [OF this, of ori] obtain rg where
    rg: "aln_region aln ori = Inr rg" "rgn_aln rg = aln" by blast
  from Cons.prems have rest: "\<forall>ao\<in>set alns. fst ao \<noteq> []" by simp
  from Cons.IH [OF rest, of "dict_append sid rg d"] obtain d' where
    d': "range_alns_loop sid alns (dict_append sid rg d) = Inr d'"
    and dist: "distinct (map fst (dict_append sid rg d)) \<longrightarrow> distinct (map fst d')"
    and get: "\<forall>k. map rgn_aln (dict_get d' k)
                  = map rgn_aln (dict_get (dict_append sid rg d) k)
                    @ (if k = sid then map fst alns else [])"
    by blast
  have r1: "range_alns_loop sid (ao # alns) d = Inr d'"
    using rg(1) d' by (simp add: ao)
  have r2: "distinct (map fst d) \<longrightarrow> distinct (map fst d')"
  proof
    assume "distinct (map fst d)"
    then have "distinct (map fst (dict_append sid rg d))" by (rule dict_append_distinct)
    with dist show "distinct (map fst d')" by simp
  qed
  have r3: "\<forall>k. map rgn_aln (dict_get d' k)
                  = map rgn_aln (dict_get d k) @ (if k = sid then map fst (ao # alns) else [])"
  proof
    fix k
    have "map rgn_aln (dict_get d' k)
            = map rgn_aln (dict_get (dict_append sid rg d) k)
              @ (if k = sid then map fst alns else [])"
      using get by (rule spec)
    also have "\<dots> = map rgn_aln (dict_get d k) @ (if k = sid then map fst (ao # alns) else [])"
      using rg(2) by (simp add: dict_get_append ao)
    finally show "map rgn_aln (dict_get d' k)
                  = map rgn_aln (dict_get d k) @ (if k = sid then map fst (ao # alns) else [])" .
  qed
  from r1 r2 r3 show ?case by (intro exI [of _ d'] conjI)
qed

lemma range_loop_get:
  assumes "\<forall>p\<in>set xs. \<forall>ao\<in>set (snd p). fst ao \<noteq> []"
  shows "\<exists>d'. range_loop xs d = Inr d' \<and>
           (distinct (map fst d) \<longrightarrow> distinct (map fst d')) \<and>
           (\<forall>k. map rgn_aln (dict_get d' k)
                  = map rgn_aln (dict_get d k)
                    @ concat (map (\<lambda>p. if fst p = k then map fst (snd p) else []) xs))"
  using assms
proof (induction xs arbitrary: d)
  case Nil
  then show ?case by simp
next
  case (Cons x xs)
  obtain sid alns where x: "x = (sid, alns)" by (cases x)
  from Cons.prems x have "\<forall>ao\<in>set alns. fst ao \<noteq> []" by simp
  from range_alns_loop_get [OF this, of sid d] obtain d1 where
    d1: "range_alns_loop sid alns d = Inr d1"
    and dist1: "distinct (map fst d) \<longrightarrow> distinct (map fst d1)"
    and get1: "\<forall>k. map rgn_aln (dict_get d1 k)
                  = map rgn_aln (dict_get d k) @ (if k = sid then map fst alns else [])"
    by blast
  from Cons.prems have rest: "\<forall>p\<in>set xs. \<forall>ao\<in>set (snd p). fst ao \<noteq> []" by simp
  from Cons.IH [OF rest, of d1] obtain d' where
    d': "range_loop xs d1 = Inr d'"
    and dist: "distinct (map fst d1) \<longrightarrow> distinct (map fst d')"
    and get: "\<forall>k. map rgn_aln (dict_get d' k)
                  = map rgn_aln (dict_get d1 k)
                    @ concat (map (\<lambda>p. if fst p = k then map fst (snd p) else []) xs)"
    by blast
  have r1: "range_loop (x # xs) d = Inr d'"
    using d1 d' by (simp add: x)
  have r2: "distinct (map fst d) \<longrightarrow> distinct (map fst d')"
    using dist1 dist by simp
  have r3: "\<forall>k. map rgn_aln (dict_get d' k)
                  = map rgn_aln (dict_get d k)
                    @ concat (map (\<lambda>p. if fst p = k then map fst (snd p) else []) (x # xs))"
  proof
    fix k
    have "map rgn_aln (dict_get d' k)
            = map rgn_aln (dict_get d1 k)
              @ concat (map (\<lambda>p. if fst p = k then map fst (snd p) else []) xs)"
      using get by (rule spec)
    also have "map rgn_aln (dict_get d1 k)
                 = map rgn_aln (dict_get d k) @ (if k = sid then map fst alns else [])"
      using get1 by (rule spec)
    finally show "map rgn_aln (dict_get d' k)
                  = map rgn_aln (dict_get d k)
                    @ concat (map (\<lambda>p. if fst p = k then map fst (snd p) else []) (x # xs))"
      by (simp add: x)
  qed
  from r1 r2 r3 show ?case by (intro exI [of _ d'] conjI)
qed

lemma query_sdb_returns:
  assumes tol: "merge_range_tol \<le> 0"
  shows "\<exists>out. query_sdb r merge_range_tol = Inr out \<and> distinct (map fst out) \<and>
           (\<forall>sid. map rgn_aln (dict_get out sid) = retained r sid)"
proof -
  let ?xs = "sids_loop r []"
  have dx: "distinct (map fst ?xs)" by (rule sids_loop_distinct) simp
  have ne: "\<forall>p\<in>set ?xs. \<forall>ao\<in>set (snd p). fst ao \<noteq> []"
  proof (intro ballI)
    fix p ao assume "p \<in> set ?xs" "ao \<in> set (snd p)"
    then have "ao \<in> (\<Union>p\<in>set ?xs. set (snd p))" by blast
    with sids_loop_values [of r "[]"] have "2 < length (fst ao)" by auto
    then show "fst ao \<noteq> []" by auto
  qed
  from range_loop_get [OF ne, of "[]"] obtain out where
    out: "range_loop ?xs [] = Inr out"
    and dist0: "distinct (map fst ([]::(nat \<times> region list) list)) \<longrightarrow> distinct (map fst out)"
    and get: "\<forall>k. map rgn_aln (dict_get out k)
                = map rgn_aln (dict_get [] k)
                  @ concat (map (\<lambda>p. if fst p = k then map fst (snd p) else []) ?xs)"
    by (elim exE conjE)
  from dist0 have dist: "distinct (map fst out)" by simp
  have "map rgn_aln (dict_get out k) = retained r k" for k
  proof -
    have "map rgn_aln (dict_get out k)
            = concat (map (\<lambda>p. if fst p = k then map fst (snd p) else []) ?xs)"
      using get by (simp add: dict_get_def)
    also have "\<dots> = map fst (dict_get ?xs k)"
      by (rule dict_get_concat [OF dx]) simp
    also have "\<dots> = retained r k"
      using sids_loop_get [of r "[]" k] by (simp add: dict_get_def)
    finally show ?thesis .
  qed
  moreover have "query_sdb r merge_range_tol = Inr out"
    using out tol by (simp add: query_sdb_def)
  ultimately have "query_sdb r merge_range_tol = Inr out \<and> distinct (map fst out) \<and>
           (\<forall>sid. map rgn_aln (dict_get out sid) = retained r sid)"
    using dist by simp
  then show ?thesis by (rule exI)
qed

text \<open>
  Claim C3, amended. Without merging (\<open>merge_range_tol \<le> 0\<close>) \<^verbatim>\<open>query_sdb\<close> returns, and
  for every target id the regions it emits are, in order, one for each retained alignment
  of that id in the query result: the alignments of the regions are the retained
  alignments. For every emitted region, \<open>bgn\<close> is the smaller value of the target interval
  that is least in the order of the pairs \<open>(start, end)\<close>, and \<open>end\<close> is the larger value
  of the target interval that is greatest in that order. When every target interval has
  \<open>start \<le> end\<close>, \<open>bgn\<close> is the minimum over all the start and end values of the
  alignment; \<open>end\<close> is the maximum over all of them when, moreover, no target interval
  ends after the greatest one.
\<close>

theorem region_bounds_from_sorted_intervals:
  assumes tol: "merge_range_tol \<le> 0"
  shows "\<exists>out.
     query_sdb r merge_range_tol = Inr out \<and> distinct (map fst out) \<and>
     (\<forall>sid. map (\<lambda>rg. snd (snd (snd (snd rg)))) (dict_get out sid) = retained r sid) \<and>
     (\<forall>p\<in>set out. \<forall>rg\<in>set (snd p).
         rg \<in> set (dict_get out (fst p)) \<and>
         fst rg = int (min (fst (Min (set (target_coor (snd (snd (snd (snd rg))))))))
                           (snd (Min (set (target_coor (snd (snd (snd (snd rg))))))))) \<and>
         fst (snd rg) = int (max (fst (Max (set (target_coor (snd (snd (snd (snd rg))))))))
                                 (snd (Max (set (target_coor (snd (snd (snd (snd rg))))))))) \<and>
         ((\<forall>c\<in>set (target_coor (snd (snd (snd (snd rg))))). fst c \<le> snd c) \<longrightarrow>
            fst rg = int (Min (set (target_values (snd (snd (snd (snd rg)))))))) \<and>
         ((\<forall>c\<in>set (target_coor (snd (snd (snd (snd rg))))). fst c \<le> snd c) \<and>
          (\<forall>c\<in>set (target_coor (snd (snd (snd (snd rg))))).
              snd c \<le> snd (Max (set (target_coor (snd (snd (snd (snd rg)))))))) \<longrightarrow>
            fst (snd rg) = int (Max (set (target_values (snd (snd (snd (snd rg)))))))))"
proof -
  from query_sdb_returns [OF tol, of r] obtain out where
    q: "query_sdb r merge_range_tol = Inr out" and dist: "distinct (map fst out)"
    and get: "\<forall>sid. map rgn_aln (dict_get out sid) = retained r sid"
    by blast
  have bounds:
    "rg \<in> set (dict_get out (fst p)) \<and>
     rgn_bgn rg = int (min (fst (Min (set (target_coor (rgn_aln rg)))))
                           (snd (Min (set (target_coor (rgn_aln rg)))))) \<and>
     rgn_end rg = int (max (fst (Max (set (target_coor (rgn_aln rg)))))
                           (snd (Max (set (target_coor (rgn_aln rg)))))) \<and>
     ((\<forall>c\<in>set (target_coor (rgn_aln rg)). fst c \<le> snd c) \<longrightarrow>
        rgn_bgn rg = int (Min (set (target_values (rgn_aln rg))))) \<and>
     ((\<forall>c\<in>set (target_coor (rgn_aln rg)). fst c \<le> snd c) \<and>
      (\<forall>c\<in>set (target_coor (rgn_aln rg)).
          snd c \<le> snd (Max (set (target_coor (rgn_aln rg))))) \<longrightarrow>
        rgn_end rg = int (Max (set (target_values (rgn_aln rg)))))"
    if p: "p \<in> set out" and rgm: "rg \<in> set (snd p)" for p rg
  proof -
    from p have mem: "(fst p, snd p) \<in> set out" by simp
    from dict_get_member [OF dist mem] rgm have in_get: "rg \<in> set (dict_get out (fst p))"
      by simp
    from query_sdb_regions [OF q tol mem rgm] obtain aln ori where
      ar: "aln_region aln ori = Inr rg"
      by blast
    from aln_region_fields [OF ar] have
      a: "rgn_aln rg = aln" and ne: "aln \<noteq> []"
      and b: "rgn_bgn rg = int (min (fst (Min (set (target_coor aln)))) (snd (Min (set (target_coor aln)))))"
      and e: "rgn_end rg = int (max (fst (Max (set (target_coor aln)))) (snd (Max (set (target_coor aln)))))"
      by simp_all
    have fin: "finite (set (target_coor aln))" by simp
    have nonempty: "set (target_coor aln) \<noteq> {}" using ne by (simp add: target_coor_def)
    have lo: "rgn_bgn rg = int (Min (set (target_values aln)))"
      if "\<forall>c\<in>set (target_coor aln). fst c \<le> snd c"
      using lex_Min_fst [OF fin nonempty that] b by (simp add: target_values_set)
    have hi: "rgn_end rg = int (Max (set (target_values aln)))"
      if "\<forall>c\<in>set (target_coor aln). fst c \<le> snd c"
        and "\<forall>c\<in>set (target_coor aln). snd c \<le> snd (Max (set (target_coor aln)))"
      using lex_Max_snd [OF fin nonempty that] e by (simp add: target_values_set)
    show ?thesis unfolding a
    proof (intro conjI impI)
      show "rg \<in> set (dict_get out (fst p))" by (rule in_get)
      show "rgn_bgn rg = int (min (fst (Min (set (target_coor aln)))) (snd (Min (set (target_coor aln)))))"
        by (rule b)
      show "rgn_end rg = int (max (fst (Max (set (target_coor aln)))) (snd (Max (set (target_coor aln)))))"
        by (rule e)
      show "rgn_bgn rg = int (Min (set (target_values aln)))"
        if "\<forall>c\<in>set (target_coor aln). fst c \<le> snd c"
        by (rule lo [OF that])
      show "rgn_end rg = int (Max (set (target_values aln)))"
        if h: "(\<forall>c\<in>set (target_coor aln). fst c \<le> snd c) \<and>
               (\<forall>c\<in>set (target_coor aln). snd c \<le> snd (Max (set (target_coor aln))))"
        by (rule hi [OF conjunct1 [OF h] conjunct2 [OF h]])
    qed
  qed
  have acc: "rgn_aln = (\<lambda>rg::region. snd (snd (snd (snd rg))))"
    by (rule ext) (simp add: rgn_aln_def)
  show ?thesis
  proof (intro exI [of _ out] conjI allI ballI)
    show "query_sdb r merge_range_tol = Inr out" by (rule q)
    show "distinct (map fst out)" by (rule dist)
    show "map (\<lambda>rg. snd (snd (snd (snd rg)))) (dict_get out sid) = retained r sid" for sid
      using get unfolding acc by simp
  next
    fix p rg assume "p \<in> set out" "rg \<in> set (snd p)"
    from bounds [OF this, unfolded rgn_bgn_def rgn_end_def rgn_aln_def, THEN conjunct1]
    show "rg \<in> set (dict_get out (fst p))" .
  next
    fix p rg assume "p \<in> set out" "rg \<in> set (snd p)"
    from bounds [OF this, unfolded rgn_bgn_def rgn_end_def rgn_aln_def, THEN conjunct2, THEN conjunct1]
    show "fst rg = int (min (fst (Min (set (target_coor (snd (snd (snd (snd rg))))))))
                           (snd (Min (set (target_coor (snd (snd (snd (snd rg)))))))))" .
  next
    fix p rg assume "p \<in> set out" "rg \<in> set (snd p)"
    from bounds [OF this, unfolded rgn_bgn_def rgn_end_def rgn_aln_def,
        THEN conjunct2, THEN conjunct2, THEN conjunct1]
    show "fst (snd rg) = int (max (fst (Max (set (target_coor (snd (snd (snd (snd rg))))))))
                                 (snd (Max (set (target_coor (snd (snd (snd (snd rg)))))))))" .
  next
    fix p rg assume "p \<in> set out" "rg \<in> set (snd p)"
    from bounds [OF this, unfolded rgn_bgn_def rgn_end_def rgn_aln_def,
        THEN conjunct2, THEN conjunct2, THEN conjunct2, THEN conjunct1]
    show "(\<forall>c\<in>set (target_coor (snd (snd (snd (snd rg))))). fst c \<le> snd c) \<longrightarrow>
            fst rg = int (Min (set (target_values (snd (snd (snd (snd rg)))))))" .
  next
    fix p rg assume "p \<in> set out" "rg \<in> set (snd p)"
    from bounds [OF this, unfolded rgn_bgn_def rgn_end_def rgn_aln_def,
        THEN conjunct2, THEN conjunct2, THEN conjunct2, THEN conjunct2]
    show "(\<forall>c\<in>set (target_coor (snd (snd (snd (snd rg))))). fst c \<le> snd c) \<and>
          (\<forall>c\<in>set (target_coor (snd (snd (snd (snd rg))))).
              snd c \<le> snd (Max (set (target_coor (snd (snd (snd (snd rg)))))))) \<longrightarrow>
            fst (snd rg) = int (Max (set (target_values (snd (snd (snd (snd rg)))))))" .
  qed
qed

text \<open>
  Claim C3 as stated fails where a target interval contains the later ones: the sorted list
  ends with \<open>(30, 40)\<close>, so the region ends at 40, and the largest end value is 100.
\<close>

theorem region_end_not_global_max:
  "query_sdb
     [(1, [(0::int, [((0, 10, 0), (0, 100, 0)), ((20, 30, 0), (10, 20, 0)),
                     ((40, 50, 0), (30, 40, 0))])])] 0
   = Inr [(1, [(0, 40, 40, 0,
                 [((0, 10, 0), (0, 100, 0)), ((20, 30, 0), (10, 20, 0)),
                  ((40, 50, 0), (30, 40, 0))])])]
   \<and> rgn_end (0, 40, 40, 0,
                [((0, 10, 0), (0, 100, 0)), ((20, 30, 0), (10, 20, 0)),
                 ((40, 50, 0), (30, 40, 0))] :: aln)
       \<noteq> int (Max (set (target_values
                [((0, 10, 0), (0, 100, 0)), ((20, 30, 0), (10, 20, 0)),
                 ((40, 50, 0), (30, 40, 0))])))"
  by (simp add: query_sdb_def aln_region_def target_coor_def target_values_def rgn_end_def)


theorem region_bounds_from_sorted_intervals_witness:
  "(0::int) \<le> 0
   \<and> query_sdb
       [(7, [(0::int, [((0, 10, 0), (100, 110, 0)), ((20, 30, 0), (120, 130, 0)),
                       ((40, 50, 0), (140, 150, 0))]),
             (0, [((0, 10, 0), (300, 310, 0)), ((20, 30, 0), (320, 330, 0))])]),
        (9, [(0, [((0, 10, 0), (5, 15, 0)), ((20, 30, 0), (25, 35, 0)),
                  ((40, 50, 0), (45, 55, 0))])]),
        (7, [(0, [((0, 10, 0), (200, 210, 0)), ((20, 30, 0), (220, 230, 0)),
                  ((40, 50, 0), (240, 250, 0))])])] 0
     = Inr [(7, [(100, 150, 50, 0,
                   [((0, 10, 0), (100, 110, 0)), ((20, 30, 0), (120, 130, 0)),
                    ((40, 50, 0), (140, 150, 0))]),
                 (200, 250, 50, 0,
                   [((0, 10, 0), (200, 210, 0)), ((20, 30, 0), (220, 230, 0)),
                    ((40, 50, 0), (240, 250, 0))])]),
            (9, [(5, 55, 50, 0,
                   [((0, 10, 0), (5, 15, 0)), ((20, 30, 0), (25, 35, 0)),
                    ((40, 50, 0), (45, 55, 0))])])]
   \<and> retained
       [(7, [(0::int, [((0, 10, 0), (100, 110, 0)), ((20, 30, 0), (120, 130, 0)),
                       ((40, 50, 0), (140, 150, 0))]),
             (0, [((0, 10, 0), (300, 310, 0)), ((20, 30, 0), (320, 330, 0))])]),
        (9, [(0, [((0, 10, 0), (5, 15, 0)), ((20, 30, 0), (25, 35, 0)),
                  ((40, 50, 0), (45, 55, 0))])]),
        (7, [(0, [((0, 10, 0), (200, 210, 0)), ((20, 30, 0), (220, 230, 0)),
                  ((40, 50, 0), (240, 250, 0))])])] 7
     = [[((0, 10, 0), (100, 110, 0)), ((20, 30, 0), (120, 130, 0)),
         ((40, 50, 0), (140, 150, 0))],
        [((0, 10, 0), (200, 210, 0)), ((20, 30, 0), (220, 230, 0)),
         ((40, 50, 0), (240, 250, 0))]]
   \<and> (100::int) = int (Min (set (target_values
         [((0, 10, 0), (100, 110, 0)), ((20, 30, 0), (120, 130, 0)),
          ((40, 50, 0), (140, 150, 0))])))
   \<and> (150::int) = int (Max (set (target_values
         [((0, 10, 0), (100, 110, 0)), ((20, 30, 0), (120, 130, 0)),
          ((40, 50, 0), (140, 150, 0))])))"
proof -
  let ?A = "[((0, 10, 0), (100, 110, 0)), ((20, 30, 0), (120, 130, 0)),
             ((40, 50, 0), (140, 150, 0))] :: aln"
  let ?S = "[((0, 10, 0), (300, 310, 0)), ((20, 30, 0), (320, 330, 0))] :: aln"
  let ?B = "[((0, 10, 0), (5, 15, 0)), ((20, 30, 0), (25, 35, 0)),
             ((40, 50, 0), (45, 55, 0))] :: aln"
  let ?C = "[((0, 10, 0), (200, 210, 0)), ((20, 30, 0), (220, 230, 0)),
             ((40, 50, 0), (240, 250, 0))] :: aln"
  let ?r = "[(7::nat, [(0::int, ?A), (0, ?S)]), (9, [(0, ?B)]), (7, [(0, ?C)])]"
  let ?out = "[(7::nat, [(100::int, 150::int, 50::int, 0::int, ?A), (200, 250, 50, 0, ?C)]),
               (9, [(5, 55, 50, 0, ?B)])]"
  have tol: "(0::int) \<le> 0" by simp
  have q: "query_sdb ?r 0 = Inr ?out"
    by (simp add: query_sdb_def aln_region_def target_coor_def)
  from region_bounds_from_sorted_intervals [OF tol, of ?r] obtain out where
    out: "query_sdb ?r 0 = Inr out"
    and get: "\<forall>sid. map (\<lambda>rg. snd (snd (snd (snd rg)))) (dict_get out sid) = retained ?r sid"
    and bounds: "\<forall>p\<in>set out. \<forall>rg\<in>set (snd p).
         rg \<in> set (dict_get out (fst p)) \<and>
         fst rg = int (min (fst (Min (set (target_coor (snd (snd (snd (snd rg))))))))
                           (snd (Min (set (target_coor (snd (snd (snd (snd rg))))))))) \<and>
         fst (snd rg) = int (max (fst (Max (set (target_coor (snd (snd (snd (snd rg))))))))
                                 (snd (Max (set (target_coor (snd (snd (snd (snd rg))))))))) \<and>
         ((\<forall>c\<in>set (target_coor (snd (snd (snd (snd rg))))). fst c \<le> snd c) \<longrightarrow>
            fst rg = int (Min (set (target_values (snd (snd (snd (snd rg)))))))) \<and>
         ((\<forall>c\<in>set (target_coor (snd (snd (snd (snd rg))))). fst c \<le> snd c) \<and>
          (\<forall>c\<in>set (target_coor (snd (snd (snd (snd rg))))).
              snd c \<le> snd (Max (set (target_coor (snd (snd (snd (snd rg)))))))) \<longrightarrow>
            fst (snd rg) = int (Max (set (target_values (snd (snd (snd (snd rg))))))))"
    by (elim exE conjE)
  from out q have eq: "out = ?out" by simp
  from get [rule_format, of 7] have ret: "retained ?r 7 = [?A, ?C]"
    unfolding eq by (simp add: dict_get_def)
  have tc: "target_coor ?A = [(100, 110), (120, 130), (140, 150)]"
    by (simp add: target_coor_def)
  have mx: "Max (set (target_coor ?A)) = (140, 150)"
    unfolding tc by (simp add: max_def)
  have ord: "\<forall>c\<in>set (target_coor ?A). fst c \<le> snd c"
    unfolding tc by simp
  have ends: "\<forall>c\<in>set (target_coor ?A). snd c \<le> snd (Max (set (target_coor ?A)))"
    unfolding mx unfolding tc by simp
  have m1: "(7, [(100, 150, 50, 0, ?A), (200, 250, 50, 0, ?C)]) \<in> set ?out" by simp
  have m2: "(100, 150, 50, 0, ?A) \<in> set (snd (7::nat, [(100::int, 150::int, 50::int, 0::int, ?A), (200, 250, 50, 0, ?C)]))"
    by simp
  from bounds [unfolded eq, rule_format, OF m1 m2] ord ends
  have "(100::int) = int (Min (set (target_values ?A)))"
    and "(150::int) = int (Max (set (target_values ?A)))"
    by simp_all
  with tol q ret show ?thesis by simp
qed

section \<open>Properties of \<^verbatim>\<open>merge_regions\<close>\<close>

text \<open>
  Claim C10 says that \<^verbatim>\<open>merge_regions\<close> sorts the caller's list in place and never
  changes the region tuples in it, each kept region being a fresh copy. The list is sorted
  in place, but the copy \<^verbatim>\<open>list(r)\<close> shares the alignment list of the tuple, and the
  merge extends that list in place. For the caller's list
  \<open>[(150, 250, 100, 0, a1), (0, 100, 100, 0, a0)]\<close> and tolerance 1000, the list object
  \<open>a0\<close> of the tuple \<open>(0, 100, 100, 0, a0)\<close> holds one hit pair before the call and two
  after it.
\<close>

theorem merged_alignment_extended_in_place:
  "merge_regions_h
     ((\<lambda>a. [])(0 := [((0, 10, 0), (0, 100, 0))], 1 := [((20, 30, 0), (150, 250, 0))]))
     [(150, 250, 100, 0, 1), (0, 100, 100, 0, 0)] 1000
   = ((\<lambda>a. [])(0 := [((0, 10, 0), (0, 100, 0)), ((20, 30, 0), (150, 250, 0))],
                 1 := [((20, 30, 0), (150, 250, 0))]),
      [(0, 100, 100, 0, 0), (150, 250, 100, 0, 1)],
      [(0, 250, 200, 0, 0)])"
  by (simp add: merge_regions_h_def deref_def rgn_bgn_def rgn_end_def rgn_len_def rgn_ori_def
      rgn_aln_def Let_def fun_upd_twist)

subsection \<open>Idempotence on the values of the regions\<close>



















section \<open>Properties of \<^verbatim>\<open>group_smps_by_principle_bundle_id\<close>\<close>












section \<open>Properties of \<^verbatim>\<open>compute_graph_diffusion_entropy\<close>\<close>

subsection \<open>The adjacency list and the writes into the matrix\<close>

lemma adj_list_loop_keys:
  "fst ` set (adj_list_loop edges d) = fst ` set d \<union> node_ids edges"
proof (induction edges arbitrary: d)
  case Nil
  then show ?case by (simp add: node_ids_def)
next
  case (Cons e edges)
  obtain n1 n2 w where e: "e = (n1, n2, w)" by (cases e)
  show ?case
    by (simp add: e Cons.IH dict_append_key_set node_ids_def) blast
qed

lemma adj_list_loop_distinct:
  "distinct (map fst d) \<Longrightarrow> distinct (map fst (adj_list_loop edges d))"
proof (induction edges arbitrary: d)
  case Nil
  then show ?case by simp
next
  case (Cons e edges)
  obtain n1 n2 w where e: "e = (n1, n2, w)" by (cases e)
  from Cons show ?case by (simp add: e dict_append_distinct)
qed

lemma adj_list_length:
  "length (adj_list_loop edges []) = card (node_ids edges)"
proof -
  have d: "distinct (map fst (adj_list_loop edges []))"
    by (rule adj_list_loop_distinct) simp
  have "card (node_ids edges) = card (set (map fst (adj_list_loop edges [])))"
    using adj_list_loop_keys [of edges "[]"] by simp
  also have "\<dots> = length (map fst (adj_list_loop edges []))"
    using d by (rule distinct_card)
  finally show ?thesis by simp
qed

lemma adj_list_loop_lists:
  assumes "\<forall>p\<in>set d. snd p \<noteq> [] \<and> fst ` set (snd p) \<subseteq> S"
    and "node_ids edges \<subseteq> S"
  shows "\<forall>p\<in>set (adj_list_loop edges d). snd p \<noteq> [] \<and> fst ` set (snd p) \<subseteq> S"
  using assms
proof (induction edges arbitrary: d)
  case Nil
  then show ?case by simp
next
  case (Cons e edges)
  obtain n1 n2 w where e: "e = (n1, n2, w)" by (cases e)
  from Cons.prems(2) have in_S: "n1 \<in> S" "n2 \<in> S" and rest: "node_ids edges \<subseteq> S"
    by (auto simp: node_ids_def e)
  have one: "\<forall>p\<in>set (dict_append n1 (n2, w) d). snd p \<noteq> [] \<and> fst ` set (snd p) \<subseteq> S"
  proof
    fix p assume "p \<in> set (dict_append n1 (n2, w) d)"
    then have "(fst p, snd p) \<in> set (dict_append n1 (n2, w) d)" by simp
    from dict_append_lists [OF this] Cons.prems(1) in_S
    show "snd p \<noteq> [] \<and> fst ` set (snd p) \<subseteq> S" by fastforce
  qed
  have two: "\<forall>p\<in>set (dict_append n2 (n1, w) (dict_append n1 (n2, w) d)).
               snd p \<noteq> [] \<and> fst ` set (snd p) \<subseteq> S"
  proof
    fix p assume "p \<in> set (dict_append n2 (n1, w) (dict_append n1 (n2, w) d))"
    then have "(fst p, snd p) \<in> set (dict_append n2 (n1, w) (dict_append n1 (n2, w) d))" by simp
    from dict_append_lists [OF this] one in_S
    show "snd p \<noteq> [] \<and> fst ` set (snd p) \<subseteq> S" by fastforce
  qed
  from Cons.IH [OF two rest] show ?case by (simp add: e)
qed

lemma adj_list_loop_weights:
  "(\<Union>p\<in>set (adj_list_loop edges d). snd ` set (snd p))
     = (\<Union>p\<in>set d. snd ` set (snd p)) \<union> (\<lambda>e. snd (snd e)) ` set edges"
proof (induction edges arbitrary: d)
  case Nil
  then show ?case by simp
next
  case (Cons e edges)
  obtain n1 n2 w where e: "e = (n1, n2, w)" by (cases e)
  have app: "(\<Union>p\<in>set (dict_append k v d'). snd ` set (snd p))
               = insert (snd v) (\<Union>p\<in>set d'. snd ` set (snd p))"
    for k :: int and v :: "int \<times> int" and d'
  proof -
    have "(\<Union>p\<in>set (dict_append k v d'). snd ` set (snd p))
            = snd ` (\<Union>p\<in>set (dict_append k v d'). set (snd p))"
      by blast
    also have "\<dots> = snd ` insert v (\<Union>p\<in>set d'. set (snd p))"
      by (simp only: dict_append_values)
    also have "\<dots> = insert (snd v) (\<Union>p\<in>set d'. snd ` set (snd p))"
      by blast
    finally show ?thesis .
  qed
  show ?case
    by (simp add: e Cons.IH app)
qed

lemma np_index_ok:
  "index_ok n i \<Longrightarrow> \<exists>j. np_index n i = Inr j \<and> j < n"
  by (auto simp: np_index_def index_ok_def)

lemma np_index_bad:
  "\<not> index_ok n i \<Longrightarrow> np_index n i = Inl IndexError"
  by (auto simp: np_index_def index_ok_def)

lemma set_entry_ok:
  assumes "square n m" "index_ok n v" "index_ok n w" "np_store ops x = Some y"
  shows "\<exists>m'. set_entry ops m v w x = Inr m' \<and> square n m'"
proof -
  from assms(1) have len: "length m = n" and rows: "\<forall>row\<in>set m. length row = n"
    by (simp_all add: square_def)
  from np_index_ok [OF assms(2)] obtain i where i: "np_index n v = Inr i" "i < n" by blast
  from len rows i(2) have ri: "length (m ! i) = n" by simp
  from np_index_ok [OF assms(3)] obtain j where j: "np_index n w = Inr j" "j < n" by blast
  have eq: "set_entry ops m v w x = Inr (m[i := (m ! i)[j := y]])"
    using len i ri j assms(4) by (simp add: set_entry_def)
  have "square n (m[i := (m ! i)[j := y]])"
    using len rows ri by (auto simp: square_def dest!: set_update_subset_insert [THEN subsetD])
  with eq show ?thesis by blast
qed

lemma set_entry_overflow:
  assumes "square n m" "index_ok n v" "index_ok n w" "np_store ops x = None"
  shows "set_entry ops m v w x = Inl OverflowError"
proof -
  from assms(1) have len: "length m = n" and rows: "\<forall>row\<in>set m. length row = n"
    by (simp_all add: square_def)
  from np_index_ok [OF assms(2)] obtain i where i: "np_index n v = Inr i" "i < n" by blast
  from len rows i(2) have ri: "length (m ! i) = n" by simp
  from np_index_ok [OF assms(3)] obtain j where j: "np_index n w = Inr j" "j < n" by blast
  show ?thesis
    using len i ri j assms(4) by (simp add: set_entry_def)
qed

lemma set_entry_bad:
  assumes "square n m" "\<not> index_ok n v \<or> \<not> index_ok n w"
  shows "set_entry ops m v w x = Inl IndexError"
proof (cases "index_ok n v")
  case False
  with assms(1) show ?thesis
    by (simp add: set_entry_def square_def np_index_bad)
next
  case True
  from assms(1) have len: "length m = n" and rows: "\<forall>row\<in>set m. length row = n"
    by (simp_all add: square_def)
  from np_index_ok [OF True] obtain i where i: "np_index n v = Inr i" "i < n" by blast
  from len rows i(2) have ri: "length (m ! i) = n" by simp
  from True assms(2) have "\<not> index_ok n w" by simp
  then show ?thesis
    using len i ri by (simp add: set_entry_def np_index_bad)
qed

text \<open>
  The writes of one row and of the whole adjacency list, by cases: they all succeed when
  every index is accepted and every weight can be stored, and the first write that fails
  raises \<^verbatim>\<open>IndexError\<close> for an index and \<^verbatim>\<open>OverflowError\<close> for a weight.
\<close>

lemma row_ids_ok_Cons:
  "row_ids_ok n v ((w, x) # ws) = (index_ok n v \<and> index_ok n w \<and> row_ids_ok n v ws)"
  by (auto simp: row_ids_ok_def)

lemma row_weights_ok_Cons:
  "row_weights_ok ops ((w, x) # ws) = (np_store ops x \<noteq> None \<and> row_weights_ok ops ws)"
  by (simp add: row_weights_ok_def)

lemma fill_row_ok:
  assumes "square n m" "row_ids_ok n v ws" "row_weights_ok ops ws"
  shows "\<exists>m'. fill_row ops v ws m = Inr m' \<and> square n m'"
  using assms
proof (induction ws arbitrary: m)
  case Nil
  then show ?case by simp
next
  case (Cons p ws)
  obtain w x where p: "p = (w, x)" by (cases p)
  from Cons.prems(2) have v: "index_ok n v" and w: "index_ok n w" and ids: "row_ids_ok n v ws"
    unfolding p row_ids_ok_Cons by simp_all
  from Cons.prems(3) have st: "np_store ops x \<noteq> None" and ws: "row_weights_ok ops ws"
    unfolding p row_weights_ok_Cons by simp_all
  from st obtain y where y: "np_store ops x = Some y" by blast
  from set_entry_ok [OF Cons.prems(1) v w y]
  obtain m1 where m1: "set_entry ops m v w x = Inr m1" "square n m1" by blast
  have step: "fill_row ops v (p # ws) m = fill_row ops v ws m1"
    using m1(1) by (simp add: p)
  from Cons.IH [OF m1(2) ids ws] show ?case unfolding step .
qed

lemma fill_row_fail:
  assumes "square n m" "\<not> (row_ids_ok n v ws \<and> row_weights_ok ops ws)"
  shows "(fill_row ops v ws m = Inl IndexError \<and> \<not> row_ids_ok n v ws) \<or>
         (fill_row ops v ws m = Inl OverflowError \<and> \<not> row_weights_ok ops ws)"
  using assms
proof (induction ws arbitrary: m)
  case Nil
  then show ?case by (simp add: row_ids_ok_def row_weights_ok_def)
next
  case (Cons p ws)
  obtain w x where p: "p = (w, x)" by (cases p)
  show ?case
  proof (cases "index_ok n v \<and> index_ok n w")
    case False
    then have "set_entry ops m v w x = Inl IndexError"
      using set_entry_bad [OF Cons.prems(1)] by blast
    then have "fill_row ops v (p # ws) m = Inl IndexError" by (simp add: p)
    moreover from False have "\<not> row_ids_ok n v (p # ws)"
      unfolding p row_ids_ok_Cons by blast
    ultimately show ?thesis by simp
  next
    case True
    then have v: "index_ok n v" and w: "index_ok n w" by simp_all
    show ?thesis
    proof (cases "np_store ops x")
      case None
      from set_entry_overflow [OF Cons.prems(1) v w None]
      have "fill_row ops v (p # ws) m = Inl OverflowError" by (simp add: p)
      moreover from None have "\<not> row_weights_ok ops (p # ws)"
        unfolding p row_weights_ok_Cons by simp
      ultimately show ?thesis by simp
    next
      case (Some y)
      from set_entry_ok [OF Cons.prems(1) v w Some]
      obtain m1 where m1: "set_entry ops m v w x = Inr m1" "square n m1" by blast
      have step: "fill_row ops v (p # ws) m = fill_row ops v ws m1"
        using m1(1) by (simp add: p)
      have ids: "row_ids_ok n v (p # ws) = row_ids_ok n v ws"
        unfolding p row_ids_ok_Cons using v w by simp
      have wts: "row_weights_ok ops (p # ws) = row_weights_ok ops ws"
        unfolding p row_weights_ok_Cons using Some by simp
      from Cons.prems(2) have "\<not> (row_ids_ok n v ws \<and> row_weights_ok ops ws)"
        unfolding ids wts .
      from Cons.IH [OF m1(2) this] show ?thesis
        unfolding step ids wts .
    qed
  qed
qed

lemma fill_matrix_ok:
  assumes "square n m"
    and "list_all (\<lambda>p. row_ids_ok n (fst p) (snd p)) adj"
    and "list_all (\<lambda>p. row_weights_ok ops (snd p)) adj"
  shows "\<exists>m'. fill_matrix ops adj m = Inr m' \<and> square n m'"
  using assms
proof (induction adj arbitrary: m)
  case Nil
  then show ?case by simp
next
  case (Cons p adj)
  obtain v ws where p: "p = (v, ws)" by (cases p)
  from Cons.prems(2) have ids: "row_ids_ok n v ws"
    and ids': "list_all (\<lambda>p. row_ids_ok n (fst p) (snd p)) adj"
    by (simp_all add: p)
  from Cons.prems(3) have wts: "row_weights_ok ops ws"
    and wts': "list_all (\<lambda>p. row_weights_ok ops (snd p)) adj"
    by (simp_all add: p)
  from fill_row_ok [OF Cons.prems(1) ids wts]
  obtain m1 where m1: "fill_row ops v ws m = Inr m1" "square n m1" by blast
  have step: "fill_matrix ops (p # adj) m = fill_matrix ops adj m1"
    using m1(1) by (simp add: p)
  from Cons.IH [OF m1(2) ids' wts'] show ?case unfolding step .
qed

lemma fill_matrix_fail:
  assumes "square n m"
    and "\<not> (list_all (\<lambda>p. row_ids_ok n (fst p) (snd p)) adj \<and>
            list_all (\<lambda>p. row_weights_ok ops (snd p)) adj)"
  shows "(fill_matrix ops adj m = Inl IndexError \<and>
            \<not> list_all (\<lambda>p. row_ids_ok n (fst p) (snd p)) adj) \<or>
         (fill_matrix ops adj m = Inl OverflowError \<and>
            \<not> list_all (\<lambda>p. row_weights_ok ops (snd p)) adj)"
  using assms
proof (induction adj arbitrary: m)
  case Nil
  then show ?case by simp
next
  case (Cons p adj)
  obtain v ws where p: "p = (v, ws)" by (cases p)
  show ?case
  proof (cases "row_ids_ok n v ws \<and> row_weights_ok ops ws")
    case True
    then have ids: "row_ids_ok n v ws" and wts: "row_weights_ok ops ws" by simp_all
    from fill_row_ok [OF Cons.prems(1) ids wts]
    obtain m1 where m1: "fill_row ops v ws m = Inr m1" "square n m1" by blast
    have step: "fill_matrix ops (p # adj) m = fill_matrix ops adj m1"
      using m1(1) by (simp add: p)
    have i: "list_all (\<lambda>p. row_ids_ok n (fst p) (snd p)) (p # adj)
               = list_all (\<lambda>p. row_ids_ok n (fst p) (snd p)) adj"
      using ids by (simp add: p)
    have w: "list_all (\<lambda>p. row_weights_ok ops (snd p)) (p # adj)
               = list_all (\<lambda>p. row_weights_ok ops (snd p)) adj"
      using wts by (simp add: p)
    from Cons.prems(2) have "\<not> (list_all (\<lambda>p. row_ids_ok n (fst p) (snd p)) adj \<and>
            list_all (\<lambda>p. row_weights_ok ops (snd p)) adj)"
      unfolding i w .
    from Cons.IH [OF m1(2) this] show ?thesis
      unfolding step i w .
  next
    case False
    from fill_row_fail [OF Cons.prems(1) False]
    show ?thesis
    proof
      assume a: "fill_row ops v ws m = Inl IndexError \<and> \<not> row_ids_ok n v ws"
      then have "fill_matrix ops (p # adj) m = Inl IndexError" by (simp add: p)
      moreover from a have "\<not> list_all (\<lambda>p. row_ids_ok n (fst p) (snd p)) (p # adj)"
        by (simp add: p)
      ultimately show ?thesis by simp
    next
      assume a: "fill_row ops v ws m = Inl OverflowError \<and> \<not> row_weights_ok ops ws"
      then have "fill_matrix ops (p # adj) m = Inl OverflowError" by (simp add: p)
      moreover from a have "\<not> list_all (\<lambda>p. row_weights_ok ops (snd p)) (p # adj)"
        by (simp add: p)
      ultimately show ?thesis by simp
    qed
  qed
qed

lemma adj_matrix_result:
  fixes edges :: "edge list" and ops :: "'f np_ops"
  defines "n \<equiv> card (node_ids edges)"
  defines "ids_ok \<equiv> \<forall>v\<in>node_ids edges. index_ok n v"
  defines "weights_ok \<equiv> \<forall>e\<in>set edges. np_store ops (snd (snd e)) \<noteq> None"
  shows "(ids_ok \<and> weights_ok
            \<longrightarrow> (\<exists>m. adj_matrix ops (adj_list_loop edges []) = Inr m \<and> square n m)) \<and>
         (\<not> (ids_ok \<and> weights_ok)
            \<longrightarrow> (adj_matrix ops (adj_list_loop edges []) = Inl IndexError \<and> \<not> ids_ok) \<or>
                (adj_matrix ops (adj_list_loop edges []) = Inl OverflowError \<and> \<not> weights_ok))"
proof -
  let ?adj = "adj_list_loop edges []"
  have len: "length ?adj = n" by (simp add: n_def adj_list_length)
  have keys: "fst ` set ?adj = node_ids edges"
    using adj_list_loop_keys [of edges "[]"] by simp
  have lists: "\<forall>p\<in>set ?adj. snd p \<noteq> [] \<and> fst ` set (snd p) \<subseteq> node_ids edges"
    by (rule adj_list_loop_lists) simp_all
  have weights: "(\<Union>p\<in>set ?adj. snd ` set (snd p)) = (\<lambda>e. snd (snd e)) ` set edges"
    using adj_list_loop_weights [of edges "[]"] by simp
  have sq: "square n (replicate n (replicate n (np_zero ops)))"
    by (simp add: square_def)
  have cond: "list_all (\<lambda>p. row_ids_ok n (fst p) (snd p)) ?adj = ids_ok"
    unfolding ids_ok_def
  proof
    assume a: "list_all (\<lambda>p. row_ids_ok n (fst p) (snd p)) ?adj"
    show "\<forall>v\<in>node_ids edges. index_ok n v"
    proof
      fix v assume "v \<in> node_ids edges"
      with keys have "v \<in> fst ` set ?adj" by simp
      then obtain p where p: "p \<in> set ?adj" "fst p = v" by (auto simp: image_iff)
      with a have "row_ids_ok n v (snd p)" by (auto simp: list_all_iff)
      moreover from p lists have "snd p \<noteq> []" by blast
      ultimately show "index_ok n v" by (simp add: row_ids_ok_def)
    qed
  next
    assume b: "\<forall>v\<in>node_ids edges. index_ok n v"
    have "row_ids_ok n (fst p) (snd p)" if p: "p \<in> set ?adj" for p
    proof -
      from p have "fst p \<in> node_ids edges" using keys by auto
      with b have 1: "index_ok n (fst p)" by blast
      from p lists have "fst ` set (snd p) \<subseteq> node_ids edges" by blast
      with b have 2: "\<forall>q\<in>set (snd p). index_ok n (fst q)" by blast
      from 1 2 show ?thesis by (simp add: row_ids_ok_def list_all_iff)
    qed
    then show "list_all (\<lambda>p. row_ids_ok n (fst p) (snd p)) ?adj"
      by (simp add: list_all_iff)
  qed
  have condw: "list_all (\<lambda>p. row_weights_ok ops (snd p)) ?adj = weights_ok"
  proof -
    have "list_all (\<lambda>p. row_weights_ok ops (snd p)) ?adj
            = (\<forall>x\<in>(\<Union>p\<in>set ?adj. snd ` set (snd p)). np_store ops x \<noteq> None)"
      unfolding list_all_iff row_weights_ok_def by blast
    also have "\<dots> = (\<forall>x\<in>(\<lambda>e. snd (snd e)) ` set edges. np_store ops x \<noteq> None)"
      by (simp only: weights)
    also have "\<dots> = weights_ok"
      unfolding weights_ok_def by blast
    finally show ?thesis .
  qed
  have ok: "\<exists>m. adj_matrix ops ?adj = Inr m \<and> square n m" if "ids_ok \<and> weights_ok"
  proof -
    from that have i: "list_all (\<lambda>p. row_ids_ok n (fst p) (snd p)) ?adj"
      and w: "list_all (\<lambda>p. row_weights_ok ops (snd p)) ?adj"
      unfolding cond condw by simp_all
    from fill_matrix_ok [OF sq i w] show ?thesis
      unfolding adj_matrix_def Let_def len .
  qed
  have fail: "(adj_matrix ops ?adj = Inl IndexError \<and> \<not> ids_ok) \<or>
              (adj_matrix ops ?adj = Inl OverflowError \<and> \<not> weights_ok)"
    if "\<not> (ids_ok \<and> weights_ok)"
  proof -
    from that have "\<not> (list_all (\<lambda>p. row_ids_ok n (fst p) (snd p)) ?adj \<and>
                       list_all (\<lambda>p. row_weights_ok ops (snd p)) ?adj)"
      unfolding cond condw .
    from fill_matrix_fail [OF sq this] show ?thesis
      unfolding adj_matrix_def Let_def len cond condw .
  qed
  from ok fail show ?thesis by blast
qed

lemma adj_matrix_square:
  assumes "adj_matrix ops (adj_list_loop edges []) = Inr m"
  shows "square (card (node_ids edges)) m"
proof -
  let ?ok = "(\<forall>v\<in>node_ids edges. index_ok (card (node_ids edges)) v) \<and>
             (\<forall>e\<in>set edges. np_store ops (snd (snd e)) \<noteq> None)"
  note res = adj_matrix_result [of edges ops]
  show ?thesis
  proof (cases ?ok)
    case True
    with res obtain m' where "adj_matrix ops (adj_list_loop edges []) = Inr m'"
      and "square (card (node_ids edges)) m'" by blast
    with assms show ?thesis by simp
  next
    case False
    with res have "adj_matrix ops (adj_list_loop edges []) = Inl IndexError \<or>
                   adj_matrix ops (adj_list_loop edges []) = Inl OverflowError"
      by blast
    with assms show ?thesis by auto
  qed
qed

lemma nonneg_ids_contiguous:
  fixes S :: "int set"
  assumes "finite S" "\<forall>v\<in>S. 0 \<le> v"
  shows "(\<forall>v\<in>S. index_ok (card S) v) = (S = {0..<int (card S)})"
proof
  assume "\<forall>v\<in>S. index_ok (card S) v"
  with assms(2) have sub: "S \<subseteq> {0..<int (card S)}"
    by (auto simp: index_ok_def)
  have "card {0..<int (card S)} = card S" by simp
  with sub show "S = {0..<int (card S)}"
    by (intro card_subset_eq) simp_all
next
  assume eq: "S = {0..<int (card S)}"
  show "\<forall>v\<in>S. index_ok (card S) v"
  proof
    fix v assume "v \<in> S"
    with eq have "v \<in> {0..<int (card S)}" by simp
    then show "index_ok (card S) v" by (simp add: index_ok_def)
  qed
qed

subsection \<open>Node ids as matrix indices\<close>

text \<open>
  Claim C9, amended. The matrix is indexed by the raw node ids under the index rules of
  NumPy, and each write converts an integer weight. When the number \<open>n\<close> of distinct node
  ids is at most \<^verbatim>\<open>max_nodes\<close>, the function returns a result exactly when every node id
  lies in \<open>-n .. n - 1\<close> and every weight can be stored. Otherwise the first write that
  fails raises: \<^verbatim>\<open>IndexError\<close> when some node id lies outside \<open>-n .. n - 1\<close> and every
  weight can be stored, \<^verbatim>\<open>OverflowError\<close> when the node ids are in range and some weight
  cannot be stored, one of the two when both happen. For edge lists without negative ids,
  the node ids all lie in range exactly when they are \<open>0 .. n - 1\<close>. This holds for any
  floating-point operations.
\<close>

theorem returns_iff_ids_in_range_and_weights_stored:
  assumes cap: "int (card (node_ids edges)) \<le> max_nodes"
  shows "((\<exists>res. compute_graph_diffusion_entropy ops edges max_nodes = Inr (Some res))
            = ((\<forall>v\<in>node_ids edges. index_ok (card (node_ids edges)) v) \<and>
               (\<forall>e\<in>set edges. np_store ops (snd (snd e)) \<noteq> None)))
       \<and> ((\<exists>v\<in>node_ids edges. \<not> index_ok (card (node_ids edges)) v) \<and>
           (\<forall>e\<in>set edges. np_store ops (snd (snd e)) \<noteq> None)
            \<longrightarrow> compute_graph_diffusion_entropy ops edges max_nodes = Inl IndexError)
       \<and> ((\<forall>v\<in>node_ids edges. index_ok (card (node_ids edges)) v) \<and>
           (\<exists>e\<in>set edges. np_store ops (snd (snd e)) = None)
            \<longrightarrow> compute_graph_diffusion_entropy ops edges max_nodes = Inl OverflowError)
       \<and> ((\<exists>v\<in>node_ids edges. \<not> index_ok (card (node_ids edges)) v) \<and>
           (\<exists>e\<in>set edges. np_store ops (snd (snd e)) = None)
            \<longrightarrow> compute_graph_diffusion_entropy ops edges max_nodes = Inl IndexError \<or>
                compute_graph_diffusion_entropy ops edges max_nodes = Inl OverflowError)
       \<and> ((\<forall>v\<in>node_ids edges. 0 \<le> v) \<longrightarrow>
           (\<forall>v\<in>node_ids edges. index_ok (card (node_ids edges)) v)
            = (node_ids edges = {0..<int (card (node_ids edges))}))"
proof -
  let ?n = "card (node_ids edges)"
  let ?A = "adj_matrix ops (adj_list_loop edges [])"
  let ?R = "compute_graph_diffusion_entropy ops edges max_nodes"
  define I where "I \<longleftrightarrow> (\<forall>v\<in>node_ids edges. index_ok (card (node_ids edges)) v)"
  define W where "W \<longleftrightarrow> (\<forall>e\<in>set edges. np_store ops (snd (snd e)) \<noteq> None)"
  have nI: "(\<exists>v\<in>node_ids edges. \<not> index_ok (card (node_ids edges)) v) \<longleftrightarrow> \<not> I"
    unfolding I_def by simp
  have nW: "(\<exists>e\<in>set edges. np_store ops (snd (snd e)) = None) \<longleftrightarrow> \<not> W"
    unfolding W_def by simp
  have fin: "finite (node_ids edges)" by (simp add: node_ids_def)
  have len: "length (adj_list_loop edges []) = ?n" by (rule adj_list_length)
  have small: "\<not> int (length (adj_list_loop edges [])) > max_nodes"
    using cap len by simp
  have res: "(I \<and> W \<longrightarrow> (\<exists>m. ?A = Inr m \<and> square ?n m)) \<and>
             (\<not> (I \<and> W) \<longrightarrow> (?A = Inl IndexError \<and> \<not> I) \<or> (?A = Inl OverflowError \<and> \<not> W))"
    using adj_matrix_result [of edges ops] unfolding I_def W_def .
  have ok: "\<exists>res. ?R = Inr (Some res)" if "?A = Inr m" for m
    using that small by (simp add: compute_graph_diffusion_entropy_def Let_def)
  have err: "?R = Inl e" if "?A = Inl e" for e
    using that small by (simp add: compute_graph_diffusion_entropy_def Let_def)
  have a: "(\<exists>res. ?R = Inr (Some res)) = (I \<and> W)"
  proof (cases "I \<and> W")
    case True
    with res obtain m where "?A = Inr m" by blast
    from ok [OF this] True show ?thesis by simp
  next
    case False
    with res have "?A = Inl IndexError \<or> ?A = Inl OverflowError" by blast
    then have "?R = Inl IndexError \<or> ?R = Inl OverflowError" using err by blast
    then have "\<not> (\<exists>res. ?R = Inr (Some res))" by auto
    with False show ?thesis by simp
  qed
  have b: "\<not> I \<and> W \<longrightarrow> ?R = Inl IndexError"
  proof
    assume h: "\<not> I \<and> W"
    with res have "?A = Inl IndexError" by blast
    then show "?R = Inl IndexError" by (rule err)
  qed
  have c: "I \<and> \<not> W \<longrightarrow> ?R = Inl OverflowError"
  proof
    assume h: "I \<and> \<not> W"
    with res have "?A = Inl OverflowError" by blast
    then show "?R = Inl OverflowError" by (rule err)
  qed
  have d: "\<not> I \<and> \<not> W \<longrightarrow> ?R = Inl IndexError \<or> ?R = Inl OverflowError"
  proof
    assume h: "\<not> I \<and> \<not> W"
    with res have "?A = Inl IndexError \<or> ?A = Inl OverflowError" by blast
    then show "?R = Inl IndexError \<or> ?R = Inl OverflowError" using err by blast
  qed
  have e: "(\<forall>v\<in>node_ids edges. 0 \<le> v) \<longrightarrow> I = (node_ids edges = {0..<int ?n})"
  proof
    assume "\<forall>v\<in>node_ids edges. 0 \<le> v"
    from nonneg_ids_contiguous [OF fin this]
    show "I = (node_ids edges = {0..<int ?n})" unfolding I_def .
  qed
  have "((\<exists>res. ?R = Inr (Some res)) = (I \<and> W))
      \<and> (\<not> I \<and> W \<longrightarrow> ?R = Inl IndexError)
      \<and> (I \<and> \<not> W \<longrightarrow> ?R = Inl OverflowError)
      \<and> (\<not> I \<and> \<not> W \<longrightarrow> ?R = Inl IndexError \<or> ?R = Inl OverflowError)
      \<and> ((\<forall>v\<in>node_ids edges. 0 \<le> v) \<longrightarrow> I = (node_ids edges = {0..<int ?n}))"
    using a b c d e by (intro conjI)
  then show ?thesis unfolding nI nW unfolding I_def W_def .
qed

text \<open>
  Claim C9 as stated fails for a negative node id: the ids \<open>0\<close> and \<open>-1\<close> are not
  \<open>{0, 1}\<close>, the index \<open>-1\<close> is the last row and column, and the function returns. Every
  number of this run is a \<^verbatim>\<open>float32\<close> number without rounding.
\<close>

theorem negative_node_id_returns_result:
  "compute_graph_diffusion_entropy np_exact [(0, - 1, 1)] 6000
     = Inr (Some [(0, Exact 1), (1, Exact 1)])
   \<and> node_ids [(0, - 1, 1)] = {0, - 1}
   \<and> node_ids [(0, - 1, 1)] \<noteq> {0..<2}"
proof -
  have "compute_graph_diffusion_entropy np_exact [(0, - 1, 1)] 6000
          = Inr (Some [(0, Exact 1), (1, Exact 1)])"
    by (simp add: compute_graph_diffusion_entropy_def adj_matrix_def set_entry_def np_index_def
        n_adj_matrix_def row_sums_def np_exact_def f32_sum_def f32_divide_def f32_times_def
        exact_def tracked_def numeral_2_eq_2)
  moreover have "node_ids [(0, - 1, 1)] = {0, - 1}"
    by (simp add: node_ids_def)
  moreover have "node_ids [(0, - 1, 1)] \<noteq> {0..<2}"
  proof
    assume "node_ids [(0, - 1, 1)] = {0..<2}"
    moreover have "- 1 \<in> node_ids [(0, - 1, 1)]" by (simp add: node_ids_def)
    ultimately have "(- 1::int) \<in> {0..<2}" by simp
    then show False by simp
  qed
  ultimately show ?thesis by blast
qed

theorem returns_iff_ids_in_range_and_weights_stored_witness:
  "int (card (node_ids [(0, 1, 5), (1, 2, 1)])) \<le> 6000
   \<and> node_ids [(0, 1, 5), (1, 2, 1)] = {0..<3}
   \<and> (\<exists>res. compute_graph_diffusion_entropy np_exact [(0, 1, 5), (1, 2, 1)] 6000 = Inr (Some res))
   \<and> int (card (node_ids [(0, 2, 1)])) \<le> 6000
   \<and> compute_graph_diffusion_entropy np_exact [(0, 2, 1)] 6000 = Inl IndexError
   \<and> int (card (node_ids [(0, 1, 10 ^ 400)])) \<le> 6000
   \<and> compute_graph_diffusion_entropy np_exact [(0, 1, 10 ^ 400)] 6000 = Inl OverflowError"
proof -
  have ids: "node_ids [(0, 1, 5), (1, 2, 1)] = {0, 1, 2}"
    by (auto simp: node_ids_def)
  have card: "card (node_ids [(0, 1, 5), (1, 2, 1)]) = 3"
    unfolding ids by simp
  have cap: "int (card (node_ids [(0, 1, 5), (1, 2, 1)])) \<le> 6000"
    unfolding card by simp
  have cont: "node_ids [(0, 1, 5), (1, 2, 1)] = {0..<3}"
    unfolding ids by auto
  have in_range: "\<forall>v\<in>node_ids [(0, 1, 5), (1, 2, 1)].
                    index_ok (card (node_ids [(0, 1, 5), (1, 2, 1)])) v"
    unfolding card unfolding ids by (simp add: index_ok_def)
  have stored: "\<forall>e\<in>set [(0, 1, 5), (1, 2, 1)]. np_store np_exact (snd (snd e)) \<noteq> None"
    by (simp add: np_exact_def)
  from returns_iff_ids_in_range_and_weights_stored [OF cap, of np_exact, THEN conjunct1]
    in_range stored
  have res: "\<exists>res. compute_graph_diffusion_entropy np_exact [(0, 1, 5), (1, 2, 1)] 6000
                      = Inr (Some res)"
    by blast
  have ids2: "node_ids [(0, 2, 1)] = {0, 2}"
    by (auto simp: node_ids_def)
  have card2: "card (node_ids [(0, 2, 1)]) = 2"
    unfolding ids2 by simp
  have cap2: "int (card (node_ids [(0, 2, 1)])) \<le> 6000"
    unfolding card2 by simp
  have bad2: "\<exists>v\<in>node_ids [(0, 2, 1)]. \<not> index_ok (card (node_ids [(0, 2, 1)])) v"
    unfolding card2 unfolding ids2 by (simp add: index_ok_def)
  have stored2: "\<forall>e\<in>set [(0, 2, 1)]. np_store np_exact (snd (snd e)) \<noteq> None"
    by (simp add: np_exact_def)
  from returns_iff_ids_in_range_and_weights_stored
         [OF cap2, of np_exact, THEN conjunct2, THEN conjunct1] bad2 stored2
  have err: "compute_graph_diffusion_entropy np_exact [(0, 2, 1)] 6000 = Inl IndexError"
    by blast
  have ids3: "node_ids [(0, 1, 10 ^ 400)] = {0, 1}"
    by (auto simp: node_ids_def)
  have card3: "card (node_ids [(0, 1, 10 ^ 400)]) = 2"
    unfolding ids3 by simp
  have cap3: "int (card (node_ids [(0, 1, 10 ^ 400)])) \<le> 6000"
    unfolding card3 by simp
  have in_range3: "\<forall>v\<in>node_ids [(0, 1, 10 ^ 400)].
                     index_ok (card (node_ids [(0, 1, 10 ^ 400)])) v"
    unfolding card3 unfolding ids3 by (simp add: index_ok_def)
  have big: "\<exists>e\<in>set [(0, 1, 10 ^ 400)]. np_store np_exact (snd (snd e)) = None"
    by (simp add: np_exact_def)
  from returns_iff_ids_in_range_and_weights_stored
         [OF cap3, of np_exact, THEN conjunct2, THEN conjunct2, THEN conjunct1] in_range3 big
  have ovf: "compute_graph_diffusion_entropy np_exact [(0, 1, 10 ^ 400)] 6000 = Inl OverflowError"
    by blast
  from cap cont res cap2 err cap3 ovf show ?thesis by (intro conjI)
qed

subsection \<open>The transition matrix\<close>

lemma n_adj_matrix_nth:
  assumes "square n m" "i < n" "j < n"
  shows "n_adj_matrix ops m ! i ! j = np_divide ops (m ! i ! j) (np_sum ops (m ! j))"
proof -
  from assms have len: "length m = n" and row: "length (m ! i) = n"
    by (simp_all add: square_def)
  have rs: "length (row_sums ops m) = n" using len by (simp add: row_sums_def)
  have rj: "row_sums ops m ! j = np_sum ops (m ! j)"
    using assms(3) len by (simp add: row_sums_def)
  have "n_adj_matrix ops m ! i = map2 (np_divide ops) (m ! i) (row_sums ops m)"
    using assms(2) len by (simp add: n_adj_matrix_def)
  then show ?thesis using row rs rj assms(3) by simp
qed

text \<open>
  Claim C6, amended. The adjacency matrix that the function fills is \<open>n \<times> n\<close> for the
  number \<open>n\<close> of distinct node ids, and the entry of the transition matrix in row \<open>i\<close> and
  column \<open>j\<close> is the quotient, as NumPy divides, of the adjacency entry at \<open>(i, j)\<close> by the
  sum, as NumPy sums, of adjacency row \<open>j\<close>: the row with the index of the column, not
  row \<open>i\<close>. This holds for any floating-point operations and whatever the row sums are;
  nothing is stated on the sums of the rows or columns of the transition matrix, which the
  rounding of the divisions decides.
\<close>

theorem transition_entry_divides_by_column_row_sum:
  assumes filled: "adj_matrix ops (adj_list_loop edges []) = Inr m"
    and i: "i < card (node_ids edges)" and j: "j < card (node_ids edges)"
  shows "length m = card (node_ids edges)
       \<and> length (m ! i) = card (node_ids edges)
       \<and> length (m ! j) = card (node_ids edges)
       \<and> n_adj_matrix ops m ! i ! j = np_divide ops (m ! i ! j) (np_sum ops (m ! j))"
proof -
  from adj_matrix_square [OF filled] have sq: "square (card (node_ids edges)) m" .
  then have len: "length m = card (node_ids edges)"
    and rows: "\<forall>row\<in>set m. length row = card (node_ids edges)"
    by (simp_all add: square_def)
  from len rows i have ri: "length (m ! i) = card (node_ids edges)" by simp
  from len rows j have rj: "length (m ! j) = card (node_ids edges)" by simp
  from len ri rj n_adj_matrix_nth [OF sq i j, of ops] show ?thesis by (intro conjI)
qed

text \<open>
  Claim C6 as stated fails on the path \<open>0 - 1 - 2\<close> with weights 1, where every number is
  a \<^verbatim>\<open>float32\<close> number without rounding: the row sums are 1, 2, 1, all positive, the
  entry at \<open>(0, 1)\<close> is \<open>1 / 2\<close> and not \<open>1 / 1\<close>, and the rows of the transition matrix
  sum to \<open>1 / 2\<close>, 2 and \<open>1 / 2\<close>.
\<close>

theorem transition_rows_not_normalised:
  "adj_matrix np_exact (adj_list_loop [(0, 1, 1), (1, 2, 1)] [])
     = Inr [[Exact 0, Exact 1, Exact 0], [Exact 1, Exact 0, Exact 1], [Exact 0, Exact 1, Exact 0]]
   \<and> row_sums np_exact
       [[Exact 0, Exact 1, Exact 0], [Exact 1, Exact 0, Exact 1], [Exact 0, Exact 1, Exact 0]]
     = [Exact 1, Exact 2, Exact 1]
   \<and> n_adj_matrix np_exact
       [[Exact 0, Exact 1, Exact 0], [Exact 1, Exact 0, Exact 1], [Exact 0, Exact 1, Exact 0]]
     = [[Exact 0, Exact (1 / 2), Exact 0], [Exact 1, Exact 0, Exact 1],
        [Exact 0, Exact (1 / 2), Exact 0]]
   \<and> n_adj_matrix np_exact
       [[Exact 0, Exact 1, Exact 0], [Exact 1, Exact 0, Exact 1], [Exact 0, Exact 1, Exact 0]] ! 0 ! 1
     = Exact (1 / 2)
   \<and> np_divide np_exact
       ([[Exact 0, Exact 1, Exact 0], [Exact 1, Exact 0, Exact 1], [Exact 0, Exact 1, Exact 0]] ! 0 ! 1)
       (np_sum np_exact
         ([[Exact 0, Exact 1, Exact 0], [Exact 1, Exact 0, Exact 1], [Exact 0, Exact 1, Exact 0]] ! 0))
     = Exact 1
   \<and> np_sum np_exact [Exact 0, Exact (1 / 2), Exact 0] = Exact (1 / 2)
   \<and> np_sum np_exact [Exact 1, Exact 0, Exact 1] = Exact 2"
  by (simp add: adj_matrix_def set_entry_def np_index_def n_adj_matrix_def row_sums_def
      np_exact_def f32_sum_def f32_divide_def exact_def tracked_def)

theorem transition_entry_divides_by_column_row_sum_witness:
  "adj_matrix np_exact (adj_list_loop [(0, 1, 1), (1, 2, 1)] [])
     = Inr [[Exact 0, Exact 1, Exact 0], [Exact 1, Exact 0, Exact 1], [Exact 0, Exact 1, Exact 0]]
   \<and> (0::nat) < card (node_ids [(0, 1, 1), (1, 2, 1)])
   \<and> (1::nat) < card (node_ids [(0, 1, 1), (1, 2, 1)])
   \<and> n_adj_matrix np_exact
       [[Exact 0, Exact 1, Exact 0], [Exact 1, Exact 0, Exact 1], [Exact 0, Exact 1, Exact 0]] ! 0 ! 1
     = Exact (1 / 2)"
proof -
  let ?m = "[[Exact 0, Exact 1, Exact 0], [Exact 1, Exact 0, Exact 1], [Exact 0, Exact 1, Exact 0]]"
  have filled: "adj_matrix np_exact (adj_list_loop [(0, 1, 1), (1, 2, 1)] []) = Inr ?m"
    by (simp add: adj_matrix_def set_entry_def np_index_def np_exact_def exact_def tracked_def)
  have ids: "node_ids [(0, 1, 1), (1, 2, 1)] = {0, 1, 2}"
    by (auto simp: node_ids_def)
  have card: "card (node_ids [(0, 1, 1), (1, 2, 1)]) = 3"
    unfolding ids by simp
  have i: "(0::nat) < card (node_ids [(0, 1, 1), (1, 2, 1)])"
    and j: "(1::nat) < card (node_ids [(0, 1, 1), (1, 2, 1)])"
    unfolding card by simp_all
  from transition_entry_divides_by_column_row_sum [OF filled i j]
  have "n_adj_matrix np_exact ?m ! 0 ! 1
          = np_divide np_exact (?m ! 0 ! 1) (np_sum np_exact (?m ! 1))"
    by simp
  also have "\<dots> = Exact (1 / 2)"
    by (simp add: np_exact_def f32_sum_def f32_divide_def exact_def tracked_def)
  finally have "n_adj_matrix np_exact ?m ! 0 ! 1 = Exact (1 / 2)" .
  with filled i j show ?thesis by (intro conjI)
qed

end
